theory Spec2Isabelle
  imports Main "HOL-Library.Word" "HOL-Library.Signed_Division"
begin

unbundle bit_operations_syntax

section \<open>Bytes, integers and errors\<close>

text \<open>
  Go's \<open>byte\<close> and \<open>uint64\<close> are words of 8 and 64 bits; \<open>[]byte\<close> is a list of
  bytes. An error value, and every panic the modelled code can raise, is a constructor of
  \<open>error\<close>; a function that can fail returns the error next to (or instead of) its result.
\<close>

type_synonym byte = "8 word"
type_synonym u64 = "64 word"

datatype error =
    EOF
  | VarintOverflow u64
  | MakesliceLenOutOfRange
  | SliceBoundsOutOfRange
  | NilMapAssignment
  | UnknownStreamType
  | ErrWrongStreamType
  | ErrPathAuthorityMethodEmpty
  | UnexpectedSettingsSize u64
  | DuplicateSetting u64
  | ErrBodyNotAllowed
  | ErrSTreamClosed
  | URLError
  | ParseIntError
  | TransportError

text \<open>
  \<open>EOF\<close> is \<open>io.EOF\<close>. \<open>VarintOverflow\<close> is the panic of \<open>quicvarint.Append\<close> and
  \<open>quicvarint.Len\<close> on a value of more than 62 bits, \<open>MakesliceLenOutOfRange\<close> the panic of
  \<open>make([]byte, n)\<close>, \<open>SliceBoundsOutOfRange\<close> that of a slice expression and
  \<open>NilMapAssignment\<close> that of a store into a nil map.
  \<open>UnknownStreamType\<close>, \<open>UnexpectedSettingsSize\<close> and \<open>DuplicateSetting\<close> are the errors built
  with \<open>fmt.Errorf\<close> in package h3. \<open>URLError\<close>, \<open>ParseIntError\<close> and \<open>TransportError\<close> stand
  for the errors of \<open>net/url\<close>, \<open>strconv\<close> and the QUIC connection.
\<close>

section \<open>Variable-length integers (package quicvarint)\<close>

text \<open>
  Modelled from the spec: the varint codec of sections 3 and 4.1, which is package
  \<open>quicvarint\<close> of quic-go; the sources import it and do not contain it. \<open>Read\<close> takes the
  length from the two high bits of the first byte and accepts every form, \<open>Append\<close> writes
  the shortest form and panics above \<open>2^62 - 1\<close>, \<open>Len\<close> is the length \<open>Append\<close> writes.
\<close>

definition maxVarInt1 :: u64 where "maxVarInt1 = 63"
definition maxVarInt2 :: u64 where "maxVarInt2 = 16383"
definition maxVarInt4 :: u64 where "maxVarInt4 = 1073741823"
definition maxVarInt8 :: u64 where "maxVarInt8 = 4611686018427387903"

definition quicvarint_Append :: "u64 \<Rightarrow> error + byte list" where
  "quicvarint_Append i =
     (if i \<le> maxVarInt1 then Inr [ucast i]
      else if i \<le> maxVarInt2 then Inr [ucast (drop_bit 8 i) OR 0x40, ucast i]
      else if i \<le> maxVarInt4 then
        Inr [ucast (drop_bit 24 i) OR 0x80, ucast (drop_bit 16 i), ucast (drop_bit 8 i), ucast i]
      else if i \<le> maxVarInt8 then
        Inr [ucast (drop_bit 56 i) OR 0xc0, ucast (drop_bit 48 i), ucast (drop_bit 40 i),
             ucast (drop_bit 32 i), ucast (drop_bit 24 i), ucast (drop_bit 16 i),
             ucast (drop_bit 8 i), ucast i]
      else Inl (VarintOverflow i))"

definition quicvarint_Len :: "u64 \<Rightarrow> error + nat" where
  "quicvarint_Len i =
     (if i \<le> maxVarInt1 then Inr 1
      else if i \<le> maxVarInt2 then Inr 2
      else if i \<le> maxVarInt4 then Inr 4
      else if i \<le> maxVarInt8 then Inr 8
      else Inl (VarintOverflow i))"

text \<open>
  \<open>quicvarint.Read\<close> takes its bytes one at a time with \<open>ReadByte\<close>; the argument is what
  the byte source still holds, the result the value and what is left. It fails with
  \<open>io.EOF\<close> when the source ends before the last byte of the integer.
\<close>

fun quicvarint_Read :: "byte list \<Rightarrow> error + (u64 \<times> byte list)" where
  "quicvarint_Read [] = Inl EOF"
| "quicvarint_Read (firstByte # r1) =
     (let l = (2::nat) ^ unat (drop_bit 6 (firstByte AND 0xc0));
          b1 = firstByte AND (0xff - 0xc0)
      in if l = 1 then Inr (ucast b1, r1)
         else (case r1 of
             [] \<Rightarrow> Inl EOF
           | b2 # r2 \<Rightarrow>
               if l = 2 then Inr (ucast b2 + push_bit 8 (ucast b1), r2)
               else (case r2 of
                   b3 # b4 # r4 \<Rightarrow>
                     if l = 4 then
                       Inr (ucast b4 + push_bit 8 (ucast b3) + push_bit 16 (ucast b2)
                            + push_bit 24 (ucast b1), r4)
                     else (case r4 of
                         b5 # b6 # b7 # b8 # r8 \<Rightarrow>
                           Inr (ucast b8 + push_bit 8 (ucast b7) + push_bit 16 (ucast b6)
                                + push_bit 24 (ucast b5) + push_bit 32 (ucast b4)
                                + push_bit 40 (ucast b3) + push_bit 48 (ucast b2)
                                + push_bit 56 (ucast b1), r8)
                       | _ \<Rightarrow> Inl EOF)
                 | _ \<Rightarrow> Inl EOF)))"

section \<open>Byte sources (io.Reader)\<close>

text \<open>
  A reader is the bytes it will still deliver. \<open>Read\<close> with a buffer of \<open>n\<close> bytes copies
  as many of them as the buffer takes and reports no error; on a drained reader it
  reports \<open>io.EOF\<close>. Implementations differ on a drained reader when the buffer is empty:
  \<open>bytes.Reader\<close> reports \<open>io.EOF\<close>, \<open>bytes.Buffer\<close> and an open QUIC stream report no
  error; \<open>eof_on_empty_read\<close> selects the first behaviour. Bytes that arrive later and
  errors of the transport are outside the model.
\<close>

record reader =
  pending :: "byte list"
  eof_on_empty_read :: bool

definition reader_Read :: "reader \<Rightarrow> nat \<Rightarrow> byte list \<times> error option \<times> reader" where
  "reader_Read r n =
     (if pending r = [] then
        (if n = 0 \<and> \<not> eof_on_empty_read r then ([], None, r) else ([], Some EOF, r))
      else (take n (pending r), None, r\<lparr>pending := drop n (pending r)\<rparr>))"

text \<open>
  \<open>make([]byte, n)\<close> panics when \<open>n\<close> exceeds what the runtime can allocate, \<open>2^48\<close>
  bytes on 64-bit Linux; no slice is longer.
\<close>

definition maxAlloc :: nat where "maxAlloc = 2 ^ 48"

section \<open>Frames (h3/frames.go)\<close>

definition FRAME_DATA :: u64 where "FRAME_DATA = 0x00"
definition FRAME_HEADERS :: u64 where "FRAME_HEADERS = 0x01"
definition FRAME_SETTINGS :: u64 where "FRAME_SETTINGS = 0x04"
definition FRAME_WEBTRANSPORT_STREAM :: u64 where "FRAME_WEBTRANSPORT_STREAM = 0x41"

record Frame =
  Type :: u64
  SessionID :: u64
  Length :: u64
  Data :: "byte list"

text \<open>The zero value \<open>Frame{}\<close>; a nil slice and an empty one are both \<open>[]\<close>.\<close>

definition Frame_zero :: Frame where
  "Frame_zero = \<lparr>Type = 0, SessionID = 0, Length = 0, Data = []\<rparr>"

text \<open>
  \<open>Frame.Read\<close> returns the receiver as the call leaves it, the error and the reader.
  A varint that fails has drained the reader. The payload is one \<open>Read\<close> into a fresh
  buffer of \<open>l\<close> zero bytes, so a short read leaves the tail of the buffer zero.
\<close>

definition Frame_Read :: "Frame \<Rightarrow> reader \<Rightarrow> Frame \<times> error option \<times> reader" where
  "Frame_Read f r =
     (case quicvarint_Read (pending r) of
        Inl e \<Rightarrow> (f, Some e, r\<lparr>pending := []\<rparr>)
      | Inr (t, p1) \<Rightarrow>
          (case quicvarint_Read p1 of
             Inl e \<Rightarrow> (f, Some e, r\<lparr>pending := []\<rparr>)
           | Inr (l, p2) \<Rightarrow>
               if t = FRAME_WEBTRANSPORT_STREAM then
                 (f\<lparr>Type := t, Length := 0, SessionID := l, Data := []\<rparr>, None,
                  r\<lparr>pending := p2\<rparr>)
               else if maxAlloc < unat l then
                 (f\<lparr>Type := t, Length := l\<rparr>, Some MakesliceLenOutOfRange, r\<lparr>pending := p2\<rparr>)
               else
                 (case reader_Read (r\<lparr>pending := p2\<rparr>) (unat l) of
                    (bs, err, r') \<Rightarrow>
                      (f\<lparr>Type := t, Length := l,
                         Data := bs @ replicate (unat l - length bs) 0\<rparr>, err, r'))))"

text \<open>
  \<open>Frame.Write\<close> hands one byte slice to the writer; the result is that slice, or the
  panic of \<open>quicvarint.Append\<close>. The payload is appended whatever the type.
\<close>

definition Frame_Write :: "Frame \<Rightarrow> error + byte list" where
  "Frame_Write f =
     (case quicvarint_Append (Type f) of
        Inl e \<Rightarrow> Inl e
      | Inr t \<Rightarrow>
          (case quicvarint_Append
                  (if Type f = FRAME_WEBTRANSPORT_STREAM then SessionID f else Length f) of
             Inl e \<Rightarrow> Inl e
           | Inr l \<Rightarrow> Inr (t @ l @ Data f)))"

section \<open>The varint codec round trip\<close>

lemma hi_bits: "unat (i::u64) < 2 ^ k \<Longrightarrow> k \<le> n \<Longrightarrow> \<not> bit i n"
proof -
  assume a: "unat i < 2 ^ k" and b: "k \<le> n"
  have "(2::nat) ^ k \<le> 2 ^ n" using b by simp
  with a have "unat i < 2 ^ n" by linarith
  then have "unat i div 2 ^ n = 0" by simp
  then have "\<not> bit (unat i) n" by (simp add: bit_iff_odd)
  then show ?thesis by (simp add: bit_unsigned_iff)
qed

lemma byte_index_cases: "n < 8 \<Longrightarrow> n \<in> {0, 1, 2, 3, 4, 5, 6, 7::nat}"
  by auto

lemma drop_hi: "unat (i::u64) < 2 ^ k \<Longrightarrow> k \<le> m \<Longrightarrow> drop_bit m i = 0"
  by (rule bit_word_eqI) (simp add: bit_simps hi_bits)

lemma sel0: "\<not> bit (x::byte) 6 \<Longrightarrow> \<not> bit x 7 \<Longrightarrow> drop_bit 6 (x AND 0xc0) = 0"
  apply (rule bit_word_eqI)
  subgoal for n
    apply simp
    apply (drule byte_index_cases)
    apply (auto simp add: bit_simps)
    done
  done

lemma low0: "\<not> bit (x::byte) 6 \<Longrightarrow> \<not> bit x 7 \<Longrightarrow> x AND (0xff - 0xc0) = x"
  apply (rule bit_word_eqI)
  subgoal for n
    apply simp
    apply (drule byte_index_cases)
    apply (auto simp add: bit_simps)
    done
  done

lemma sel1: "\<not> bit (x::byte) 6 \<Longrightarrow> \<not> bit x 7 \<Longrightarrow> drop_bit 6 ((x OR 0x40) AND 0xc0) = 1"
  apply (rule bit_word_eqI)
  subgoal for n
    apply simp
    apply (drule byte_index_cases)
    apply (auto simp add: bit_simps)
    done
  done

lemma low1: "\<not> bit (x::byte) 6 \<Longrightarrow> \<not> bit x 7 \<Longrightarrow> (x OR 0x40) AND (0xff - 0xc0) = x"
  apply (rule bit_word_eqI)
  subgoal for n
    apply simp
    apply (drule byte_index_cases)
    apply (auto simp add: bit_simps)
    done
  done

lemma sel2: "\<not> bit (x::byte) 6 \<Longrightarrow> \<not> bit x 7 \<Longrightarrow> drop_bit 6 ((x OR 0x80) AND 0xc0) = 2"
  apply (rule bit_word_eqI)
  subgoal for n
    apply simp
    apply (drule byte_index_cases)
    apply (auto simp add: bit_simps)
    done
  done

lemma low2: "\<not> bit (x::byte) 6 \<Longrightarrow> \<not> bit x 7 \<Longrightarrow> (x OR 0x80) AND (0xff - 0xc0) = x"
  apply (rule bit_word_eqI)
  subgoal for n
    apply simp
    apply (drule byte_index_cases)
    apply (auto simp add: bit_simps)
    done
  done

lemma sel3: "drop_bit 6 (((x::byte) OR 0xc0) AND 0xc0) = 3"
  by (rule bit_word_eqI) simp

lemma low3: "\<not> bit (x::byte) 6 \<Longrightarrow> \<not> bit x 7 \<Longrightarrow> (x OR 0xc0) AND (0xff - 0xc0) = x"
  apply (rule bit_word_eqI)
  subgoal for n
    apply simp
    apply (drule byte_index_cases)
    apply (auto simp add: bit_simps)
    done
  done

lemma uu: "(ucast (ucast (w::u64) :: byte) :: u64) = take_bit 8 w"
  by (rule bit_word_eqI) (auto simp add: bit_simps)

lemma split_byte: "push_bit k (w::u64) = push_bit k (take_bit 8 w) + push_bit (k + 8) (drop_bit 8 w)"
proof -
  have "w = take_bit 8 w + push_bit 8 (drop_bit 8 w)"
    using bits_ident[of 8 w] by (simp add: add.commute)
  then have "push_bit k w = push_bit k (take_bit 8 w + push_bit 8 (drop_bit 8 w))" by simp
  then show ?thesis by (simp add: push_bit_add add.commute)
qed

lemma value8:
  "ucast (ucast (i::u64) :: byte) + push_bit 8 (ucast (ucast (drop_bit 8 i) :: byte))
   + push_bit 16 (ucast (ucast (drop_bit 16 i) :: byte))
   + push_bit 24 (ucast (ucast (drop_bit 24 i) :: byte))
   + push_bit 32 (ucast (ucast (drop_bit 32 i) :: byte))
   + push_bit 40 (ucast (ucast (drop_bit 40 i) :: byte))
   + push_bit 48 (ucast (ucast (drop_bit 48 i) :: byte))
   + push_bit 56 (ucast (ucast (drop_bit 56 i) :: byte)) = i"
proof -
  have "i = push_bit 0 i" by simp
  also have "\<dots> = take_bit 8 i + push_bit 8 (drop_bit 8 i)"
    using split_byte[of 0 i] by simp
  also have "push_bit 8 (drop_bit 8 i) = push_bit 8 (take_bit 8 (drop_bit 8 i)) + push_bit 16 (drop_bit 16 i)"
    using split_byte[of 8 "drop_bit 8 i"] by simp
  also have "push_bit 16 (drop_bit 16 i) = push_bit 16 (take_bit 8 (drop_bit 16 i)) + push_bit 24 (drop_bit 24 i)"
    using split_byte[of 16 "drop_bit 16 i"] by simp
  also have "push_bit 24 (drop_bit 24 i) = push_bit 24 (take_bit 8 (drop_bit 24 i)) + push_bit 32 (drop_bit 32 i)"
    using split_byte[of 24 "drop_bit 24 i"] by simp
  also have "push_bit 32 (drop_bit 32 i) = push_bit 32 (take_bit 8 (drop_bit 32 i)) + push_bit 40 (drop_bit 40 i)"
    using split_byte[of 32 "drop_bit 32 i"] by simp
  also have "push_bit 40 (drop_bit 40 i) = push_bit 40 (take_bit 8 (drop_bit 40 i)) + push_bit 48 (drop_bit 48 i)"
    using split_byte[of 40 "drop_bit 40 i"] by simp
  also have "push_bit 48 (drop_bit 48 i) = push_bit 48 (take_bit 8 (drop_bit 48 i)) + push_bit 56 (drop_bit 56 i)"
    using split_byte[of 48 "drop_bit 48 i"] by simp
  also have "push_bit 56 (drop_bit 56 i) = push_bit 56 (take_bit 8 (drop_bit 56 i))"
    by (rule bit_word_eqI) (auto simp add: bit_simps)
  finally show ?thesis by (simp add: uu add.assoc)
qed

lemma value4:
  assumes "unat (i::u64) < 2 ^ 30"
  shows "ucast (ucast i :: byte) + push_bit 8 (ucast (ucast (drop_bit 8 i) :: byte))
   + push_bit 16 (ucast (ucast (drop_bit 16 i) :: byte))
   + push_bit 24 (ucast (ucast (drop_bit 24 i) :: byte)) = i"
  using value8[of i] drop_hi[OF assms, of 32] drop_hi[OF assms, of 40]
    drop_hi[OF assms, of 48] drop_hi[OF assms, of 56] by simp

lemma value2:
  assumes "unat (i::u64) < 2 ^ 14"
  shows "ucast (ucast i :: byte) + push_bit 8 (ucast (ucast (drop_bit 8 i) :: byte)) = i"
  using value8[of i] drop_hi[OF assms, of 16] drop_hi[OF assms, of 24] drop_hi[OF assms, of 32]
    drop_hi[OF assms, of 40] drop_hi[OF assms, of 48] drop_hi[OF assms, of 56] by simp

lemma value1:
  assumes "unat (i::u64) < 2 ^ 6"
  shows "ucast (ucast i :: byte) = i"
  using value8[of i] drop_hi[OF assms, of 8] drop_hi[OF assms, of 16] drop_hi[OF assms, of 24]
    drop_hi[OF assms, of 32] drop_hi[OF assms, of 40] drop_hi[OF assms, of 48]
    drop_hi[OF assms, of 56] by simp

lemma top_clear:
  assumes "unat (i::u64) < 2 ^ (k + 6)"
  shows "\<not> bit (ucast (drop_bit k i) :: byte) 6" "\<not> bit (ucast (drop_bit k i) :: byte) 7"
  using hi_bits[OF assms, of "k + 6"] hi_bits[OF assms, of "k + 7"]
  by (simp_all add: bit_simps add.commute)

lemma quicvarint_Read_Append_1:
  assumes "i \<le> maxVarInt1"
  shows "quicvarint_Read (ucast i # rest) = Inr (i, rest)"
proof -
  from assms have u: "unat i < 2 ^ (0 + 6)" by (simp add: maxVarInt1_def word_le_nat_alt)
  have c: "\<not> bit (ucast i :: byte) 6" "\<not> bit (ucast i :: byte) 7"
    using top_clear[OF u] by simp_all
  from u have v: "ucast (ucast i :: byte) = i" by (simp add: value1)
  have "quicvarint_Read (ucast i # rest) = Inr (ucast (ucast i :: byte), rest)"
    by (simp only: quicvarint_Read.simps sel0[OF c] low0[OF c] Let_def) simp
  with v show ?thesis by simp
qed

lemma quicvarint_Read_Append_2:
  assumes "i \<le> maxVarInt2"
  shows "quicvarint_Read ((ucast (drop_bit 8 i) OR 0x40) # ucast i # rest) = Inr (i, rest)"
proof -
  from assms have u: "unat i < 2 ^ (8 + 6)" by (simp add: maxVarInt2_def word_le_nat_alt)
  note c = top_clear[OF u]
  from u have v: "ucast (ucast i :: byte) + push_bit 8 (ucast (ucast (drop_bit 8 i) :: byte)) = i"
    by (simp add: value2)
  have "quicvarint_Read ((ucast (drop_bit 8 i) OR 0x40) # ucast i # rest)
        = Inr (ucast (ucast i :: byte) + push_bit 8 (ucast (ucast (drop_bit 8 i) :: byte)), rest)"
    by (simp only: quicvarint_Read.simps sel1[OF c] low1[OF c] Let_def) simp
  with v show ?thesis by simp
qed

lemma quicvarint_Read_Append_4:
  assumes "i \<le> maxVarInt4"
  shows "quicvarint_Read ((ucast (drop_bit 24 i) OR 0x80) # ucast (drop_bit 16 i)
            # ucast (drop_bit 8 i) # ucast i # rest) = Inr (i, rest)"
proof -
  from assms have u: "unat i < 2 ^ (24 + 6)" by (simp add: maxVarInt4_def word_le_nat_alt)
  note c = top_clear[OF u]
  from u have v: "ucast (ucast i :: byte) + push_bit 8 (ucast (ucast (drop_bit 8 i) :: byte))
      + push_bit 16 (ucast (ucast (drop_bit 16 i) :: byte))
      + push_bit 24 (ucast (ucast (drop_bit 24 i) :: byte)) = i"
    by (simp add: value4)
  have "quicvarint_Read ((ucast (drop_bit 24 i) OR 0x80) # ucast (drop_bit 16 i)
            # ucast (drop_bit 8 i) # ucast i # rest)
        = Inr (ucast (ucast i :: byte) + push_bit 8 (ucast (ucast (drop_bit 8 i) :: byte))
      + push_bit 16 (ucast (ucast (drop_bit 16 i) :: byte))
      + push_bit 24 (ucast (ucast (drop_bit 24 i) :: byte)), rest)"
    by (simp only: quicvarint_Read.simps sel2[OF c] low2[OF c] Let_def) simp
  with v show ?thesis by simp
qed

lemma quicvarint_Read_Append_8:
  assumes "i \<le> maxVarInt8"
  shows "quicvarint_Read ((ucast (drop_bit 56 i) OR 0xc0) # ucast (drop_bit 48 i)
            # ucast (drop_bit 40 i) # ucast (drop_bit 32 i) # ucast (drop_bit 24 i)
            # ucast (drop_bit 16 i) # ucast (drop_bit 8 i) # ucast i # rest) = Inr (i, rest)"
proof -
  from assms have u: "unat i < 2 ^ (56 + 6)" by (simp add: maxVarInt8_def word_le_nat_alt)
  note c = top_clear[OF u]
  have "quicvarint_Read ((ucast (drop_bit 56 i) OR 0xc0) # ucast (drop_bit 48 i)
            # ucast (drop_bit 40 i) # ucast (drop_bit 32 i) # ucast (drop_bit 24 i)
            # ucast (drop_bit 16 i) # ucast (drop_bit 8 i) # ucast i # rest)
        = Inr (ucast (ucast i :: byte) + push_bit 8 (ucast (ucast (drop_bit 8 i) :: byte))
   + push_bit 16 (ucast (ucast (drop_bit 16 i) :: byte))
   + push_bit 24 (ucast (ucast (drop_bit 24 i) :: byte))
   + push_bit 32 (ucast (ucast (drop_bit 32 i) :: byte))
   + push_bit 40 (ucast (ucast (drop_bit 40 i) :: byte))
   + push_bit 48 (ucast (ucast (drop_bit 48 i) :: byte))
   + push_bit 56 (ucast (ucast (drop_bit 56 i) :: byte)), rest)"
    by (simp only: quicvarint_Read.simps sel3 low3[OF c] Let_def) simp
  then show ?thesis by (simp only: value8)
qed

theorem quicvarint_Read_Append:
  assumes "quicvarint_Append i = Inr bs"
  shows "quicvarint_Read (bs @ rest) = Inr (i, rest)"
proof -
  consider (a) "i \<le> maxVarInt1"
    | (b) "\<not> i \<le> maxVarInt1" "i \<le> maxVarInt2"
    | (c) "\<not> i \<le> maxVarInt1" "\<not> i \<le> maxVarInt2" "i \<le> maxVarInt4"
    | (d) "\<not> i \<le> maxVarInt1" "\<not> i \<le> maxVarInt2" "\<not> i \<le> maxVarInt4" "i \<le> maxVarInt8"
    | (e) "\<not> i \<le> maxVarInt1" "\<not> i \<le> maxVarInt2" "\<not> i \<le> maxVarInt4" "\<not> i \<le> maxVarInt8"
    by blast
  then show ?thesis
  proof cases
    case a
    with assms have "bs = [ucast i]" by (simp add: quicvarint_Append_def)
    with a show ?thesis by (simp only: append_Cons append_Nil quicvarint_Read_Append_1)
  next
    case b
    with assms have "bs = [ucast (drop_bit 8 i) OR 0x40, ucast i]"
      by (simp add: quicvarint_Append_def)
    with b show ?thesis by (simp only: append_Cons append_Nil quicvarint_Read_Append_2)
  next
    case c
    with assms have "bs = [ucast (drop_bit 24 i) OR 0x80, ucast (drop_bit 16 i),
        ucast (drop_bit 8 i), ucast i]"
      by (simp add: quicvarint_Append_def)
    with c show ?thesis by (simp only: append_Cons append_Nil quicvarint_Read_Append_4)
  next
    case d
    with assms have "bs = [ucast (drop_bit 56 i) OR 0xc0, ucast (drop_bit 48 i),
        ucast (drop_bit 40 i), ucast (drop_bit 32 i), ucast (drop_bit 24 i),
        ucast (drop_bit 16 i), ucast (drop_bit 8 i), ucast i]"
      by (simp add: quicvarint_Append_def)
    with d show ?thesis by (simp only: append_Cons append_Nil quicvarint_Read_Append_8)
  next
    case e
    with assms show ?thesis by (simp add: quicvarint_Append_def)
  qed
qed

lemma quicvarint_Append_Len:
  "quicvarint_Append i = Inr bs \<Longrightarrow> quicvarint_Len i = Inr (length bs)"
  by (auto simp: quicvarint_Append_def quicvarint_Len_def split: if_splits)

lemma quicvarint_Append_ok:
  "i \<le> maxVarInt8 \<Longrightarrow> \<exists>bs. quicvarint_Append i = Inr bs"
  by (simp add: quicvarint_Append_def)

lemma quicvarint_Read_shorter:
  "quicvarint_Read b = Inr (v, r) \<Longrightarrow> length r < length b"
  by (cases b) (auto simp: Let_def split: if_splits list.splits)

section \<open>Frame codec properties\<close>

lemma maxAlloc_fits_varint: "unat (l::u64) \<le> maxAlloc \<Longrightarrow> l \<le> maxVarInt8"
  by (simp add: maxAlloc_def maxVarInt8_def word_le_nat_alt)

lemma reader_Read_exact:
  "reader_Read \<lparr>pending = d @ rest, eof_on_empty_read = z\<rparr> (length d)
     = (d, (if d = [] \<and> rest = [] \<and> z then Some EOF else None),
        \<lparr>pending = rest, eof_on_empty_read = z\<rparr>)"
  by (auto simp: reader_Read_def)

text \<open>
  \<open>Frame.Read\<close> on a reader that starts with a type other than \<open>WEBTRANSPORT_STREAM\<close> and a
  length: the payload is what one \<open>Read\<close> of that many bytes delivers.
\<close>

lemma Frame_Read_other:
  assumes "quicvarint_Read (pending r) = Inr (t, p1)" and "quicvarint_Read p1 = Inr (l, p2)"
    and "t \<noteq> FRAME_WEBTRANSPORT_STREAM" and "unat l \<le> maxAlloc"
  shows "Frame_Read g r =
     (case reader_Read (r\<lparr>pending := p2\<rparr>) (unat l) of
        (bs, err, r') \<Rightarrow>
          (g\<lparr>Type := t, Length := l, Data := bs @ replicate (unat l - length bs) 0\<rparr>, err, r'))"
  using assms by (simp add: Frame_Read_def)

lemma Frame_Read_WEBTRANSPORT_STREAM:
  assumes "quicvarint_Read (pending r) = Inr (FRAME_WEBTRANSPORT_STREAM, p1)"
    and "quicvarint_Read p1 = Inr (s, app)"
  shows "Frame_Read g r =
     (g\<lparr>Type := FRAME_WEBTRANSPORT_STREAM, Length := 0, SessionID := s, Data := []\<rparr>, None,
      r\<lparr>pending := app\<rparr>)"
  using assms by (simp add: Frame_Read_def)

lemma Frame_Write_Inr:
  assumes "quicvarint_Append (Type f) = Inr t"
    and "quicvarint_Append (if Type f = FRAME_WEBTRANSPORT_STREAM then SessionID f else Length f)
           = Inr l"
  shows "Frame_Write f = Inr (t @ l @ Data f)"
  using assms by (simp add: Frame_Write_def)

lemma Frame_Read_Write_append:
  assumes ty: "Type f \<noteq> FRAME_WEBTRANSPORT_STREAM" and tv: "Type f \<le> maxVarInt8"
    and len: "unat (Length f) = length (Data f)" and al: "length (Data f) \<le> maxAlloc"
  shows "\<exists>bs. Frame_Write f = Inr bs \<and> length bs \<ge> 2 \<and>
     Frame_Read g \<lparr>pending = bs @ rest, eof_on_empty_read = z\<rparr>
       = (g\<lparr>Type := Type f, Length := Length f, Data := Data f\<rparr>,
          (if Data f = [] \<and> rest = [] \<and> z then Some EOF else None),
          \<lparr>pending = rest, eof_on_empty_read = z\<rparr>)"
proof -
  from len al have lv: "Length f \<le> maxVarInt8" by (simp add: maxAlloc_fits_varint)
  from tv obtain t where t: "quicvarint_Append (Type f) = Inr t"
    using quicvarint_Append_ok by blast
  from lv obtain l where l: "quicvarint_Append (Length f) = Inr l"
    using quicvarint_Append_ok by blast
  from t l ty have w: "Frame_Write f = Inr (t @ l @ Data f)"
    by (simp add: Frame_Write_Inr)
  have lt: "length t \<ge> 1" "length l \<ge> 1"
    using t l by (auto simp: quicvarint_Append_def split: if_splits)
  let ?r = "\<lparr>pending = (t @ l @ Data f) @ rest, eof_on_empty_read = z\<rparr>"
  have r1: "quicvarint_Read (pending ?r) = Inr (Type f, l @ Data f @ rest)"
    using quicvarint_Read_Append[OF t, of "l @ Data f @ rest"] by simp
  have r2: "quicvarint_Read (l @ Data f @ rest) = Inr (Length f, Data f @ rest)"
    using quicvarint_Read_Append[OF l] by simp
  from len al have a: "unat (Length f) \<le> maxAlloc" by simp
  have "Frame_Read g ?r
      = (g\<lparr>Type := Type f, Length := Length f, Data := Data f\<rparr>,
          (if Data f = [] \<and> rest = [] \<and> z then Some EOF else None),
          \<lparr>pending = rest, eof_on_empty_read = z\<rparr>)"
    by (simp only: Frame_Read_other[OF r1 r2 ty a] len)
       (simp add: reader_Read_exact)
  with w lt show ?thesis by auto
qed

text \<open>
  C6 (as amended). A frame whose type is not \<open>WEBTRANSPORT_STREAM\<close> and is a varint, and
  whose \<open>Length\<close> field is the length of its \<open>Data\<close> (a slice the runtime can hold),
  survives \<open>Frame.Write\<close> followed by \<open>Frame.Read\<close> of the bytes written: the frame read
  has the same type, the same length and the same payload, and the reader is left
  drained. \<open>Frame.Read\<close> returns no error, except the end of input when the payload is
  empty and the reader reports the end of input on an empty read.
\<close>

theorem Frame_Write_Read_roundtrip:
  assumes "Type f \<noteq> FRAME_WEBTRANSPORT_STREAM" and "Type f \<le> maxVarInt8"
    and "unat (Length f) = length (Data f)" and "length (Data f) \<le> maxAlloc"
  shows "\<exists>bs g' err r'. Frame_Write f = Inr bs
     \<and> Frame_Read g \<lparr>pending = bs, eof_on_empty_read = z\<rparr> = (g', err, r')
     \<and> Type g' = Type f \<and> Length g' = Length f \<and> Data g' = Data f
     \<and> pending r' = [] \<and> err = (if Data f = [] \<and> z then Some EOF else None)"
  using Frame_Read_Write_append[OF assms, of g "[]" z] by auto

theorem Frame_Write_Read_roundtrip_witness:
  "\<exists>bs g' err r'.
     Frame_Write \<lparr>Type = FRAME_SETTINGS, SessionID = 0, Length = 2, Data = [0x06, 0x07]\<rparr> = Inr bs
     \<and> Frame_Read Frame_zero \<lparr>pending = bs, eof_on_empty_read = True\<rparr> = (g', err, r')
     \<and> Type g' = FRAME_SETTINGS \<and> Length g' = 2 \<and> Data g' = [0x06, 0x07]
     \<and> pending r' = [] \<and> err = None"
  using Frame_Write_Read_roundtrip
    [of "\<lparr>Type = FRAME_SETTINGS, SessionID = 0, Length = 2, Data = [0x06, 0x07]\<rparr>"
        Frame_zero True]
  by (simp add: FRAME_SETTINGS_def FRAME_WEBTRANSPORT_STREAM_def maxVarInt8_def maxAlloc_def)

text \<open>
  The claim as first stated fails in three ways. \<open>Frame.Write\<close> writes the \<open>Length\<close>
  field, not the length of \<open>Data\<close>: a \<open>DATA\<close> frame with \<open>Length\<close> 5 and the payload
  \<open>01 02\<close> is written as \<open>00 05 01 02\<close> and read back with the payload
  \<open>01 02 00 00 00\<close>. An empty \<open>DATA\<close> frame is written as \<open>00 00\<close>, and reading it
  from a reader that reports the end of input on an empty read returns that error. A
  type of \<open>2^62\<close> makes \<open>Frame.Write\<close> panic.
\<close>

theorem Frame_Write_Read_Length_field:
  "Frame_Write \<lparr>Type = FRAME_DATA, SessionID = 0, Length = 5, Data = [0x01, 0x02]\<rparr>
     = Inr [0x00, 0x05, 0x01, 0x02]
   \<and> Frame_Read Frame_zero \<lparr>pending = [0x00, 0x05, 0x01, 0x02], eof_on_empty_read = False\<rparr>
     = (\<lparr>Type = FRAME_DATA, SessionID = 0, Length = 5, Data = [0x01, 0x02, 0x00, 0x00, 0x00]\<rparr>,
        None, \<lparr>pending = [], eof_on_empty_read = False\<rparr>)
   \<and> Frame_Write \<lparr>Type = FRAME_DATA, SessionID = 0, Length = 0, Data = []\<rparr>
     = Inr [0x00, 0x00]
   \<and> Frame_Read Frame_zero \<lparr>pending = [0x00, 0x00], eof_on_empty_read = True\<rparr>
     = (\<lparr>Type = FRAME_DATA, SessionID = 0, Length = 0, Data = []\<rparr>, Some EOF,
        \<lparr>pending = [], eof_on_empty_read = True\<rparr>)
   \<and> Frame_Write \<lparr>Type = 0x4000000000000000, SessionID = 0, Length = 0, Data = []\<rparr>
     = Inl (VarintOverflow 0x4000000000000000)"
  by (simp add: Frame_Write_def Frame_Read_def Frame_zero_def reader_Read_def
      quicvarint_Append_def FRAME_DATA_def FRAME_WEBTRANSPORT_STREAM_def maxVarInt1_def
      maxVarInt2_def maxVarInt4_def maxVarInt8_def maxAlloc_def numeral_3_eq_3)

text \<open>
  C7 (as amended). For a frame of type \<open>WEBTRANSPORT_STREAM\<close> whose session id \<open>s\<close> is a
  varint, \<open>Frame.Write\<close> emits \<open>varint(0x41)\<close>, then \<open>varint(s)\<close>, then the frame's \<open>Data\<close>:
  no payload bytes exactly when \<open>Data\<close> is empty. \<open>Frame.Read\<close> on \<open>varint(0x41)\<close>,
  \<open>varint(s)\<close> and application bytes returns no error, with \<open>SessionID = s\<close>, length zero
  and an empty payload, and leaves the reader at the first application byte.
\<close>

theorem Frame_WEBTRANSPORT_STREAM_codec:
  assumes "Type f = FRAME_WEBTRANSPORT_STREAM" and "SessionID f \<le> maxVarInt8"
  shows "\<exists>t s. quicvarint_Append FRAME_WEBTRANSPORT_STREAM = Inr t
     \<and> quicvarint_Append (SessionID f) = Inr s
     \<and> Frame_Write f = Inr (t @ s @ Data f)
     \<and> Frame_Read g \<lparr>pending = t @ s @ app, eof_on_empty_read = z\<rparr>
         = (g\<lparr>Type := FRAME_WEBTRANSPORT_STREAM, Length := 0, SessionID := SessionID f,
              Data := []\<rparr>, None, \<lparr>pending = app, eof_on_empty_read = z\<rparr>)"
proof -
  have "FRAME_WEBTRANSPORT_STREAM \<le> maxVarInt8"
    by (simp add: FRAME_WEBTRANSPORT_STREAM_def maxVarInt8_def)
  then obtain t where t: "quicvarint_Append FRAME_WEBTRANSPORT_STREAM = Inr t"
    using quicvarint_Append_ok by blast
  from assms(2) obtain s where s: "quicvarint_Append (SessionID f) = Inr s"
    using quicvarint_Append_ok by blast
  from t s assms(1) have w: "Frame_Write f = Inr (t @ s @ Data f)"
    by (simp add: Frame_Write_Inr)
  let ?r = "\<lparr>pending = t @ s @ app, eof_on_empty_read = z\<rparr>"
  have r1: "quicvarint_Read (pending ?r) = Inr (FRAME_WEBTRANSPORT_STREAM, s @ app)"
    using quicvarint_Read_Append[OF t] by simp
  have r2: "quicvarint_Read (s @ app) = Inr (SessionID f, app)"
    using quicvarint_Read_Append[OF s] by simp
  have "Frame_Read g ?r
      = (g\<lparr>Type := FRAME_WEBTRANSPORT_STREAM, Length := 0, SessionID := SessionID f,
              Data := []\<rparr>, None, \<lparr>pending = app, eof_on_empty_read = z\<rparr>)"
    by (simp add: Frame_Read_WEBTRANSPORT_STREAM[OF r1 r2])
  with t s w show ?thesis by blast
qed

theorem Frame_WEBTRANSPORT_STREAM_codec_witness:
  "\<exists>t s. quicvarint_Append FRAME_WEBTRANSPORT_STREAM = Inr t
     \<and> quicvarint_Append 4 = Inr s
     \<and> Frame_Write \<lparr>Type = FRAME_WEBTRANSPORT_STREAM, SessionID = 4, Length = 0, Data = []\<rparr>
         = Inr (t @ s)
     \<and> Frame_Read Frame_zero \<lparr>pending = t @ s @ [0x68, 0x69], eof_on_empty_read = False\<rparr>
         = (\<lparr>Type = FRAME_WEBTRANSPORT_STREAM, SessionID = 4, Length = 0, Data = []\<rparr>, None,
            \<lparr>pending = [0x68, 0x69], eof_on_empty_read = False\<rparr>)"
  using Frame_WEBTRANSPORT_STREAM_codec
    [of "\<lparr>Type = FRAME_WEBTRANSPORT_STREAM, SessionID = 4, Length = 0, Data = []\<rparr>"
        Frame_zero "[0x68, 0x69]" False]
  by (simp add: maxVarInt8_def Frame_zero_def)

text \<open>
  The claim as first stated fails for a frame that carries \<open>Data\<close>: the payload byte
  follows the two varints \<open>40 41\<close> and \<open>00\<close>.
\<close>

theorem Frame_Write_WEBTRANSPORT_STREAM_payload:
  "Frame_Write \<lparr>Type = FRAME_WEBTRANSPORT_STREAM, SessionID = 0, Length = 0, Data = [0xAA]\<rparr>
     = Inr [0x40, 0x41, 0x00, 0xAA]
   \<and> quicvarint_Append FRAME_WEBTRANSPORT_STREAM = Inr [0x40, 0x41]
   \<and> quicvarint_Append 0 = Inr [0x00]"
  by (simp add: Frame_Write_def quicvarint_Append_def FRAME_WEBTRANSPORT_STREAM_def
      maxVarInt1_def maxVarInt2_def)

section \<open>Sessions (session.go, the datagram module)\<close>

text \<open>
  Of a session the modelled functions use the id of the request stream, \<open>s.StreamID()\<close>,
  a \<open>quic.StreamID\<close>, that is an \<open>int64\<close>. The QUIC connection, the control streams and
  the context are the environment: what a call on them answers is an argument of the
  function that makes the call.
\<close>

record Session =
  StreamID :: "64 word"


text \<open>
  The quarter stream id \<open>uint64(s.StreamID()/4)\<close>: Go's division of signed integers
  truncates, and the conversion keeps the 64 bits.
\<close>

definition quarterStreamID :: "Session \<Rightarrow> u64" where
  "quarterStreamID s = word_of_int (sint (StreamID s) sdiv 4)"

text \<open>
  \<open>Session.SendDatagram\<close>: the result is the buffer handed to the connection's
  \<open>SendDatagram\<close>, or the panic of \<open>quicvarint.Append\<close>.
\<close>

definition SendDatagram :: "Session \<Rightarrow> byte list \<Rightarrow> error + byte list" where
  "SendDatagram s msg =
     (case quicvarint_Append (quarterStreamID s) of
        Inl e \<Rightarrow> Inl e
      | Inr q \<Rightarrow> Inr (q @ msg))"

text \<open>
  \<open>Session.ReceiveDatagram\<close> waits for the connection's answer or for the context; the
  event that ends the wait is the argument. The result of a received datagram is
  \<open>msg[quicvarint.Len(quarterStreamId):]\<close>.
\<close>

datatype datagram_event = Received "byte list" | ReceiveFailed error | ContextDone

definition ReceiveDatagram :: "Session \<Rightarrow> datagram_event \<Rightarrow> error + byte list" where
  "ReceiveDatagram s ev =
     (case ev of
        ContextDone \<Rightarrow> Inl ErrSTreamClosed
      | ReceiveFailed e \<Rightarrow> Inl e
      | Received msg \<Rightarrow>
          (case quicvarint_Read msg of
             Inl e \<Rightarrow> Inl e
           | Inr (quarterStreamId, _) \<Rightarrow>
               (case quicvarint_Len quarterStreamId of
                  Inl e \<Rightarrow> Inl e
                | Inr n \<Rightarrow>
                    if length msg < n then Inl SliceBoundsOutOfRange else Inr (drop n msg))))"

section \<open>Stream headers (h3/streams.go)\<close>

definition STREAM_CONTROL :: u64 where "STREAM_CONTROL = 0x00"
definition STREAM_PUSH :: u64 where "STREAM_PUSH = 0x01"
definition STREAM_QPACK_ENCODER :: u64 where "STREAM_QPACK_ENCODER = 0x02"
definition STREAM_QPACK_DECODER :: u64 where "STREAM_QPACK_DECODER = 0x03"
definition STREAM_WEBTRANSPORT_UNI_STREAM :: u64 where "STREAM_WEBTRANSPORT_UNI_STREAM = 0x54"

text \<open>The fields \<open>Type\<close> and \<open>ID\<close> of \<open>StreamHeader\<close>.\<close>

record StreamHeader =
  SH_Type :: u64
  SH_ID :: u64

definition StreamHeader_zero :: StreamHeader where
  "StreamHeader_zero = \<lparr>SH_Type = 0, SH_ID = 0\<rparr>"

definition StreamHeader_Read ::
    "StreamHeader \<Rightarrow> reader \<Rightarrow> StreamHeader \<times> error option \<times> reader" where
  "StreamHeader_Read s r =
     (case quicvarint_Read (pending r) of
        Inl e \<Rightarrow> (s, Some e, r\<lparr>pending := []\<rparr>)
      | Inr (t, p1) \<Rightarrow>
          if t = STREAM_CONTROL \<or> t = STREAM_QPACK_ENCODER \<or> t = STREAM_QPACK_DECODER then
            (s\<lparr>SH_Type := t\<rparr>, None, r\<lparr>pending := p1\<rparr>)
          else if t = STREAM_PUSH \<or> t = STREAM_WEBTRANSPORT_UNI_STREAM then
            (case quicvarint_Read p1 of
               Inl e \<Rightarrow> (s\<lparr>SH_Type := t\<rparr>, Some e, r\<lparr>pending := []\<rparr>)
             | Inr (l, p2) \<Rightarrow> (s\<lparr>SH_Type := t, SH_ID := l\<rparr>, None, r\<lparr>pending := p2\<rparr>))
          else (s\<lparr>SH_Type := t\<rparr>, Some UnknownStreamType, r\<lparr>pending := p1\<rparr>))"

section \<open>Unidirectional receive streams (stream.go)\<close>

text \<open>\<open>inner\<close> is the embedded \<open>quic.ReceiveStream\<close>.\<close>

record ReceiveStream =
  inner :: reader
  readHeaderBeforeData :: bool
  headerRead :: bool
  requestSessionID :: u64

text \<open>
  \<open>Session.AcceptUniStream\<close> wraps the stream the connection answers. On an error Go
  returns the error next to a wrapper of a nil stream; the model returns the error alone.
\<close>

definition AcceptUniStream :: "Session \<Rightarrow> error + reader \<Rightarrow> error + ReceiveStream" where
  "AcceptUniStream s accepted =
     (case accepted of
        Inl e \<Rightarrow> Inl e
      | Inr stream \<Rightarrow>
          Inr \<lparr>inner = stream, readHeaderBeforeData = True, headerRead = False,
               requestSessionID = 0\<rparr>)"

text \<open>
  \<open>ReceiveStream.Read\<close> with a buffer of \<open>n\<close> bytes: the wrapper after the call, the
  bytes read and the error.
\<close>

definition ReceiveStream_Read ::
    "ReceiveStream \<Rightarrow> nat \<Rightarrow> ReceiveStream \<times> byte list \<times> error option" where
  "ReceiveStream_Read s n =
     (let read_data = (\<lambda>s'. case reader_Read (inner s') n of
                                (bs, err, r') \<Rightarrow> (s'\<lparr>inner := r'\<rparr>, bs, err))
      in if readHeaderBeforeData s \<and> \<not> headerRead s then
           (case StreamHeader_Read StreamHeader_zero (inner s) of
              (streamHeader, err, r') \<Rightarrow>
                (case err of
                   Some e \<Rightarrow> (s\<lparr>inner := r'\<rparr>, [], Some e)
                 | None \<Rightarrow>
                     if SH_Type streamHeader \<noteq> STREAM_WEBTRANSPORT_UNI_STREAM then
                       (s\<lparr>inner := r'\<rparr>, [], Some ErrWrongStreamType)
                     else
                       read_data (s\<lparr>inner := r', requestSessionID := SH_ID streamHeader,
                                     headerRead := True\<rparr>)))
         else read_data s)"

section \<open>Origin validation (the server module)\<close>

text \<open>
  Of \<open>Server\<close> the listen address and the allowed origins; the handler, the certificate
  and the QUIC configuration play no part in what follows. A Go slice is nil or holds
  elements: \<open>None\<close> is the nil slice, \<open>Some []\<close> an empty slice that is not nil.
  \<open>url.Parse\<close> and the field \<open>Host\<close> of its result belong to \<open>net/url\<close> and are parameters;
  \<open>None\<close> is a parse error.
\<close>

record Server =
  ListenAddr :: string
  AllowedOrigins :: "string list option"

definition validateOrigin ::
    "(string \<Rightarrow> 'url option) \<Rightarrow> ('url \<Rightarrow> string) \<Rightarrow> Server \<Rightarrow> string \<Rightarrow> bool" where
  "validateOrigin url_Parse url_Host s origin =
     (case AllowedOrigins s of
        None \<Rightarrow> True
      | Some allowed \<Rightarrow>
          (case url_Parse origin of
             None \<Rightarrow> False
           | Some u \<Rightarrow> url_Host u \<in> set allowed))"

section \<open>Accepting streams\<close>

lemma reader_Read_drop:
  "reader_Read r n = (bs, err, r') \<Longrightarrow> pending r' = drop n (pending r)"
  by (auto simp: reader_Read_def split: if_splits)




section \<open>Datagrams\<close>

lemma quarterStreamID_fits:
  assumes "0 \<le> sint (StreamID s)"
  shows "quarterStreamID s \<le> maxVarInt8"
proof -
  have u: "sint (StreamID s) < 2 ^ 63"
    using sint_lt[of "StreamID s"] by simp
  from assms have q: "sint (StreamID s) sdiv 4 = sint (StreamID s) div 4"
    by (simp add: signed_divide_int_def sgn_if)
  from assms u have b: "0 \<le> sint (StreamID s) div 4" "sint (StreamID s) div 4 < 2 ^ 61"
    by simp_all
  then have "uint (word_of_int (sint (StreamID s) div 4) :: u64) = sint (StreamID s) div 4"
    by (simp add: uint_word_of_int take_bit_int_eq_self)
  with b show ?thesis
    by (simp add: quarterStreamID_def q word_le_def maxVarInt8_def)
qed

text \<open>
  What holds of the two datagram functions. A session whose id is not negative sends
  \<open>varint(id/4)\<close> followed by the payload.
\<close>

lemma SendDatagram_wire:
  assumes "0 \<le> sint (StreamID s)"
  shows "\<exists>q. quicvarint_Append (quarterStreamID s) = Inr q \<and> SendDatagram s p = Inr (q @ p)"
proof -
  from quarterStreamID_fits[OF assms] obtain q where "quicvarint_Append (quarterStreamID s) = Inr q"
    using quicvarint_Append_ok by blast
  then show ?thesis by (simp add: SendDatagram_def)
qed

text \<open>
  A received datagram whose prefix is the shortest encoding of its value, the form
  \<open>quicvarint.Append\<close> writes, is returned without the prefix.
\<close>

lemma ReceiveDatagram_shortest_prefix:
  assumes "quicvarint_Append v = Inr q"
  shows "ReceiveDatagram s (Received (q @ p)) = Inr p"
  using quicvarint_Read_Append[OF assms, of p] quicvarint_Append_Len[OF assms]
  by (simp add: ReceiveDatagram_def)

text \<open>
  C2. The code departs from the claim on a prefix that is not the shortest form.
  Session id 4 has quarter stream id 1; \<open>40 01\<close> is the two-byte encoding of 1, which
  \<open>quicvarint.Read\<close> accepts, leaving the payload \<open>DE AD\<close>. \<open>ReceiveDatagram\<close> drops
  \<open>quicvarint.Len(1) = 1\<close> byte instead of the two bytes read, and returns \<open>01 DE AD\<close>.
\<close>

theorem ReceiveDatagram_two_byte_prefix:
  "quarterStreamID \<lparr>StreamID = 4\<rparr> = 1
   \<and> quicvarint_Read [0x40, 0x01, 0xDE, 0xAD] = Inr (1, [0xDE, 0xAD])
   \<and> ReceiveDatagram \<lparr>StreamID = 4\<rparr> (Received [0x40, 0x01, 0xDE, 0xAD])
       = Inr [0x01, 0xDE, 0xAD]"
  by (simp add: quarterStreamID_def ReceiveDatagram_def quicvarint_Len_def maxVarInt1_def
      signed_divide_int_def)

section \<open>The first read of a unidirectional stream\<close>

lemma StreamHeader_Read_error:
  assumes "quicvarint_Read (pending r) = Inr (t, p1)"
  shows "fst (snd (StreamHeader_Read h r)) =
     (if t = STREAM_CONTROL \<or> t = STREAM_QPACK_ENCODER \<or> t = STREAM_QPACK_DECODER then None
      else if t = STREAM_PUSH \<or> t = STREAM_WEBTRANSPORT_UNI_STREAM then
        (case quicvarint_Read p1 of Inl e \<Rightarrow> Some e | Inr v \<Rightarrow> None)
      else Some UnknownStreamType)"
  and "SH_Type (fst (StreamHeader_Read h r)) = t"
  using assms by (auto simp: StreamHeader_Read_def split: sum.splits)

lemma quicvarint_Read_error: "quicvarint_Read b = Inl e \<Longrightarrow> e = EOF"
  by (cases b) (auto simp: Let_def split: if_splits list.splits)

text \<open>The error of the first \<open>Read\<close> on the wrapper \<open>AcceptUniStream\<close> makes of a stream.\<close>

definition first_Read_error :: "reader \<Rightarrow> nat \<Rightarrow> error option" where
  "first_Read_error st n =
     snd (snd (ReceiveStream_Read
       \<lparr>inner = st, readHeaderBeforeData = True, headerRead = False, requestSessionID = 0\<rparr> n))"

lemma first_Read_error_header:
  assumes "fst (snd (StreamHeader_Read StreamHeader_zero st)) = Some e"
  shows "first_Read_error st n = Some e"
  using assms
  by (cases "StreamHeader_Read StreamHeader_zero st")
     (simp add: first_Read_error_def ReceiveStream_Read_def)

lemma first_Read_error_type:
  assumes "fst (snd (StreamHeader_Read StreamHeader_zero st)) = None"
    and "SH_Type (fst (StreamHeader_Read StreamHeader_zero st)) \<noteq> STREAM_WEBTRANSPORT_UNI_STREAM"
  shows "first_Read_error st n = Some ErrWrongStreamType"
  using assms
  by (cases "StreamHeader_Read StreamHeader_zero st")
     (simp add: first_Read_error_def ReceiveStream_Read_def)

lemma first_Read_error_data:
  assumes "fst (snd (StreamHeader_Read StreamHeader_zero st)) = None"
    and "SH_Type (fst (StreamHeader_Read StreamHeader_zero st)) = STREAM_WEBTRANSPORT_UNI_STREAM"
  shows "first_Read_error st n \<noteq> Some ErrWrongStreamType"
  using assms
  by (cases "StreamHeader_Read StreamHeader_zero st")
     (auto simp add: first_Read_error_def ReceiveStream_Read_def reader_Read_def
       split: prod.splits if_splits)

text \<open>
  C3 (as amended). On an inbound unidirectional stream whose leading varint is \<open>t\<close>, the
  first \<open>Read\<close> of the wrapper fails with \<open>ErrWrongStreamType\<close> if and only if \<open>t\<close> is
  \<open>CONTROL\<close>, \<open>QPACK_ENCODER\<close> or \<open>QPACK_DECODER\<close>, or \<open>PUSH\<close> followed by a complete
  varint. Any other type than these and \<open>0x54\<close> makes the first read fail with the
  unknown-stream-type error of the header codec, and \<open>PUSH\<close> with an id that is cut
  off with the end of input: whenever \<open>t\<close> is not \<open>0x54\<close> the first read fails.
\<close>

theorem first_Read_wrong_stream_type:
  assumes "quicvarint_Read (pending st) = Inr (t, p1)"
  shows "(first_Read_error st n = Some ErrWrongStreamType \<longleftrightarrow>
            t = STREAM_CONTROL \<or> t = STREAM_QPACK_ENCODER \<or> t = STREAM_QPACK_DECODER
            \<or> (t = STREAM_PUSH \<and> (\<exists>v. quicvarint_Read p1 = Inr v)))
       \<and> (t \<notin> {STREAM_CONTROL, STREAM_PUSH, STREAM_QPACK_ENCODER, STREAM_QPACK_DECODER,
                 STREAM_WEBTRANSPORT_UNI_STREAM}
            \<longrightarrow> first_Read_error st n = Some UnknownStreamType)
       \<and> (t = STREAM_PUSH \<and> (\<exists>e. quicvarint_Read p1 = Inl e)
            \<longrightarrow> first_Read_error st n = Some EOF)
       \<and> (t \<noteq> STREAM_WEBTRANSPORT_UNI_STREAM \<longrightarrow> first_Read_error st n \<noteq> None)"
proof -
  note h = StreamHeader_Read_error[OF assms, of StreamHeader_zero]
  have distinct_types: "STREAM_PUSH \<noteq> STREAM_WEBTRANSPORT_UNI_STREAM"
    "STREAM_CONTROL \<noteq> STREAM_WEBTRANSPORT_UNI_STREAM"
    "STREAM_QPACK_ENCODER \<noteq> STREAM_WEBTRANSPORT_UNI_STREAM"
    "STREAM_QPACK_DECODER \<noteq> STREAM_WEBTRANSPORT_UNI_STREAM"
    "STREAM_PUSH \<noteq> STREAM_CONTROL" "STREAM_PUSH \<noteq> STREAM_QPACK_ENCODER"
    "STREAM_PUSH \<noteq> STREAM_QPACK_DECODER"
    by (simp_all add: STREAM_PUSH_def STREAM_WEBTRANSPORT_UNI_STREAM_def STREAM_CONTROL_def
        STREAM_QPACK_ENCODER_def STREAM_QPACK_DECODER_def)
  consider (bare) "t = STREAM_CONTROL \<or> t = STREAM_QPACK_ENCODER \<or> t = STREAM_QPACK_DECODER"
    | (push_ok) v where "t = STREAM_PUSH" "quicvarint_Read p1 = Inr v"
    | (push_cut) e where "t = STREAM_PUSH" "quicvarint_Read p1 = Inl e"
    | (uni_ok) v where "t = STREAM_WEBTRANSPORT_UNI_STREAM" "quicvarint_Read p1 = Inr v"
    | (uni_cut) e where "t = STREAM_WEBTRANSPORT_UNI_STREAM" "quicvarint_Read p1 = Inl e"
    | (unknown) "t \<notin> {STREAM_CONTROL, STREAM_PUSH, STREAM_QPACK_ENCODER, STREAM_QPACK_DECODER,
                 STREAM_WEBTRANSPORT_UNI_STREAM}"
    by (cases "quicvarint_Read p1") auto
  then show ?thesis
  proof cases
    case bare
    with h distinct_types have "first_Read_error st n = Some ErrWrongStreamType"
      by (intro first_Read_error_type) auto
    with bare distinct_types show ?thesis by auto
  next
    case push_ok
    with h distinct_types have "first_Read_error st n = Some ErrWrongStreamType"
      by (intro first_Read_error_type) auto
    with push_ok distinct_types show ?thesis by auto
  next
    case push_cut
    with h distinct_types have "first_Read_error st n = Some e"
      by (intro first_Read_error_header) auto
    moreover from push_cut have "e = EOF" by (simp add: quicvarint_Read_error)
    ultimately show ?thesis using push_cut distinct_types by auto
  next
    case uni_ok
    with h distinct_types have "first_Read_error st n \<noteq> Some ErrWrongStreamType"
      by (intro first_Read_error_data) auto
    with uni_ok distinct_types show ?thesis by auto
  next
    case uni_cut
    with h distinct_types have "first_Read_error st n = Some e"
      by (intro first_Read_error_header) auto
    moreover from uni_cut have "e = EOF" by (simp add: quicvarint_Read_error)
    ultimately show ?thesis using uni_cut distinct_types by auto
  next
    case unknown
    with h have "first_Read_error st n = Some UnknownStreamType"
      by (intro first_Read_error_header) auto
    with unknown show ?thesis by auto
  qed
qed

theorem first_Read_wrong_stream_type_witness:
  "first_Read_error \<lparr>pending = [0x00, 0x07], eof_on_empty_read = False\<rparr> 16
     = Some ErrWrongStreamType
   \<and> first_Read_error \<lparr>pending = [0x21, 0x07], eof_on_empty_read = False\<rparr> 16
     = Some UnknownStreamType
   \<and> first_Read_error \<lparr>pending = [0x01], eof_on_empty_read = False\<rparr> 16 = Some EOF"
proof -
  have a: "quicvarint_Read [0x00, 0x07] = Inr (STREAM_CONTROL, [0x07])"
    by (simp add: STREAM_CONTROL_def)
  have b: "quicvarint_Read [0x21, 0x07] = Inr (0x21, [0x07])"
    by simp
  have c: "quicvarint_Read [0x01] = Inr (STREAM_PUSH, [])"
    by (simp add: STREAM_PUSH_def)
  show ?thesis
    using first_Read_wrong_stream_type
      [of "\<lparr>pending = [0x00, 0x07], eof_on_empty_read = False\<rparr>" STREAM_CONTROL "[0x07]" 16]
      first_Read_wrong_stream_type
      [of "\<lparr>pending = [0x21, 0x07], eof_on_empty_read = False\<rparr>" "0x21" "[0x07]" 16]
      first_Read_wrong_stream_type
      [of "\<lparr>pending = [0x01], eof_on_empty_read = False\<rparr>" STREAM_PUSH "[]" 16]
      a b c
    by (simp add: STREAM_PUSH_def STREAM_WEBTRANSPORT_UNI_STREAM_def STREAM_CONTROL_def
        STREAM_QPACK_ENCODER_def STREAM_QPACK_DECODER_def)
qed

text \<open>
  The claim as first stated fails on a stream that opens with a type the header codec
  does not know: the wire type \<open>0x04\<close> is not \<open>0x54\<close>, and the first read fails with the
  unknown-stream-type error, not with \<open>ErrWrongStreamType\<close>.
\<close>

theorem first_Read_unknown_stream_type:
  "quicvarint_Read [0x04, 0x01] = Inr (4, [0x01])
   \<and> AcceptUniStream \<lparr>StreamID = 0\<rparr> (Inr \<lparr>pending = [0x04, 0x01], eof_on_empty_read = False\<rparr>)
       = Inr \<lparr>inner = \<lparr>pending = [0x04, 0x01], eof_on_empty_read = False\<rparr>,
              readHeaderBeforeData = True, headerRead = False, requestSessionID = 0\<rparr>
   \<and> ReceiveStream_Read
        \<lparr>inner = \<lparr>pending = [0x04, 0x01], eof_on_empty_read = False\<rparr>,
         readHeaderBeforeData = True, headerRead = False, requestSessionID = 0\<rparr> 16
       = (\<lparr>inner = \<lparr>pending = [0x01], eof_on_empty_read = False\<rparr>,
           readHeaderBeforeData = True, headerRead = False, requestSessionID = 0\<rparr>,
          [], Some UnknownStreamType)"
  by (simp add: AcceptUniStream_def ReceiveStream_Read_def StreamHeader_Read_def
      StreamHeader_zero_def STREAM_PUSH_def STREAM_WEBTRANSPORT_UNI_STREAM_def
      STREAM_CONTROL_def STREAM_QPACK_ENCODER_def STREAM_QPACK_DECODER_def)

section \<open>Origins\<close>

lemma validateOrigin_nil:
  "AllowedOrigins s = None \<Longrightarrow> validateOrigin url_Parse url_Host s origin"
  by (simp add: validateOrigin_def)

text \<open>
  C1. The code departs from the claim on a list that is empty and not nil: the test is
  \<open>s.AllowedOrigins == nil\<close>, an empty slice passes it, and \<open>slices.Contains\<close> finds no
  host in an empty slice. Every origin is refused, whatever \<open>url.Parse\<close> makes of it.
\<close>

theorem validateOrigin_empty_slice:
  "validateOrigin url_Parse url_Host \<lparr>ListenAddr = '':4433'', AllowedOrigins = Some []\<rparr>
     ''https://example.com'' = False"
  by (simp add: validateOrigin_def split: option.split)

section \<open>Settings (h3/settings.go)\<close>

text \<open>\<open>SettingsMap\<close> is \<open>map[SettingID]uint64\<close>, and \<open>SettingID\<close> is \<open>uint64\<close>.\<close>

type_synonym SettingsMap = "u64 \<rightharpoonup> u64"

text \<open>
  The loop of \<open>FromFrame\<close> over a \<open>bytes.Reader\<close> of the payload. The receiver is
  updated in place: the result is the receiver as the call leaves it, and the error.
\<close>

function FromFrame_loop :: "SettingsMap \<Rightarrow> byte list \<Rightarrow> SettingsMap \<times> error option" where
  "FromFrame_loop s b =
     (if b = [] then (s, None)
      else (case quicvarint_Read b of
          Inl e \<Rightarrow> (s, Some e)
        | Inr (sid, b1) \<Rightarrow>
            (case quicvarint_Read b1 of
               Inl e \<Rightarrow> (s, Some e)
             | Inr (val, b2) \<Rightarrow>
                 if s sid \<noteq> None then (s, Some (DuplicateSetting sid))
                 else FromFrame_loop (s(sid \<mapsto> val)) b2)))"
  by pat_completeness auto
termination
  by (relation "measure (\<lambda>(s, b). length b)") (auto dest!: quicvarint_Read_shorter)

declare FromFrame_loop.simps [simp del]

definition FromFrame :: "SettingsMap \<Rightarrow> Frame \<Rightarrow> SettingsMap \<times> error option" where
  "FromFrame s f =
     (if 8 * 2 ^ 10 < Length f then (s, Some (UnexpectedSettingsSize (Length f)))
      else FromFrame_loop s (Data f))"

text \<open>
  The receiver above is a map that has been made. On a nil map a lookup finds nothing
  and the first store panics: the call fails on the first pair it decodes.
\<close>

definition FromFrame_nil :: "Frame \<Rightarrow> error option" where
  "FromFrame_nil f =
     (if 8 * 2 ^ 10 < Length f then Some (UnexpectedSettingsSize (Length f))
      else if Data f = [] then None
      else (case quicvarint_Read (Data f) of
          Inl e \<Rightarrow> Some e
        | Inr (sid, b1) \<Rightarrow>
            (case quicvarint_Read b1 of
               Inl e \<Rightarrow> Some e
             | Inr (val, b2) \<Rightarrow> Some NilMapAssignment)))"

text \<open>
  \<open>ToFrame\<close> ranges over the map twice, first for the length and then for the payload.
  The order of a range over a Go map is not specified and may differ between the two:
  the arguments are the entries of the map in the order each loop visits them.
\<close>

fun ToFrame_length :: "(u64 \<times> u64) list \<Rightarrow> u64 \<Rightarrow> error + u64" where
  "ToFrame_length [] l = Inr l"
| "ToFrame_length ((sid, val) # es) l =
     (case quicvarint_Len sid of
        Inl e \<Rightarrow> Inl e
      | Inr a \<Rightarrow>
          (case quicvarint_Len val of
             Inl e \<Rightarrow> Inl e
           | Inr b \<Rightarrow> ToFrame_length es (l + of_nat (a + b))))"

fun ToFrame_data :: "(u64 \<times> u64) list \<Rightarrow> byte list \<Rightarrow> error + byte list" where
  "ToFrame_data [] b = Inr b"
| "ToFrame_data ((sid, val) # es) b =
     (case quicvarint_Append sid of
        Inl e \<Rightarrow> Inl e
      | Inr x \<Rightarrow>
          (case quicvarint_Append val of
             Inl e \<Rightarrow> Inl e
           | Inr y \<Rightarrow> ToFrame_data es (b @ x @ y)))"

definition ToFrame :: "(u64 \<times> u64) list \<Rightarrow> (u64 \<times> u64) list \<Rightarrow> error + Frame" where
  "ToFrame es1 es2 =
     (case ToFrame_length es1 0 of
        Inl e \<Rightarrow> Inl e
      | Inr l \<Rightarrow>
          (case ToFrame_data es2 [] of
             Inl e \<Rightarrow> Inl e
           | Inr d \<Rightarrow> Inr \<lparr>Type = FRAME_SETTINGS, SessionID = 0, Length = l, Data = d\<rparr>))"

text \<open>
  The pairs a payload holds, as the specification reads it: the complete pairs from the
  start, in order, and the bytes that follow the last of them (none, or a pair cut off).
\<close>

function decode_pairs :: "byte list \<Rightarrow> (u64 \<times> u64) list \<times> byte list" where
  "decode_pairs b =
     (if b = [] then ([], [])
      else (case quicvarint_Read b of
          Inl e \<Rightarrow> ([], b)
        | Inr (sid, b1) \<Rightarrow>
            (case quicvarint_Read b1 of
               Inl e \<Rightarrow> ([], b)
             | Inr (val, b2) \<Rightarrow>
                 (case decode_pairs b2 of (ps, rest) \<Rightarrow> ((sid, val) # ps, rest)))))"
  by pat_completeness auto
termination
  by (relation "measure length") (auto dest!: quicvarint_Read_shorter)

declare decode_pairs.simps [simp del]

text \<open>The ids of the pairs are new to the map and differ from one another.\<close>

definition fresh :: "SettingsMap \<Rightarrow> (u64 \<times> u64) list \<Rightarrow> bool" where
  "fresh s ps = (distinct (map fst ps) \<and> list_all (\<lambda>p. s (fst p) = None) ps)"

section \<open>Settings: what the decoder stores and reports\<close>

lemma decode_pairs_Nil: "decode_pairs [] = ([], [])"
  by (simp add: decode_pairs.simps)

lemma decode_pairs_Cons:
  assumes "decode_pairs b = ((k, w) # ps, rest)"
  shows "b \<noteq> [] \<and> (\<exists>b1 b2. quicvarint_Read b = Inr (k, b1) \<and> quicvarint_Read b1 = Inr (w, b2)
           \<and> decode_pairs b2 = (ps, rest))"
  using assms
  by (subst (asm) decode_pairs.simps) (auto split: if_splits sum.splits prod.splits)

lemma decode_pairs_none:
  assumes "decode_pairs b = ([], rest)"
  shows "rest = b \<and> (b = [] \<or> quicvarint_Read b = Inl EOF
           \<or> (\<exists>k b1. quicvarint_Read b = Inr (k, b1) \<and> quicvarint_Read b1 = Inl EOF))"
  using assms
  by (subst (asm) decode_pairs.simps)
     (auto split: if_splits sum.splits prod.splits dest: quicvarint_Read_error)

lemma FromFrame_loop_store:
  assumes "b \<noteq> []" and "quicvarint_Read b = Inr (k, b1)" and "quicvarint_Read b1 = Inr (w, b2)"
    and "s k = None"
  shows "FromFrame_loop s b = FromFrame_loop (s(k \<mapsto> w)) b2"
  using assms by (subst FromFrame_loop.simps) simp

lemma FromFrame_loop_present:
  assumes "b \<noteq> []" and "quicvarint_Read b = Inr (k, b1)" and "quicvarint_Read b1 = Inr (w, b2)"
    and "s k \<noteq> None"
  shows "FromFrame_loop s b = (s, Some (DuplicateSetting k))"
  using assms by (subst FromFrame_loop.simps) simp

lemma fresh_Cons:
  "fresh s ((k, w) # ps) \<longleftrightarrow> s k = None \<and> fresh (s(k \<mapsto> w)) ps"
  by (auto simp: fresh_def list_all_iff)

lemma map_add_fresh_Cons:
  assumes "fresh s ((k, w) # ps)"
  shows "s(k \<mapsto> w) ++ map_of ps = s ++ map_of ((k, w) # ps)"
proof -
  from assms have "k \<notin> fst ` set ps" by (auto simp: fresh_def)
  then have "k \<notin> dom (map_of ps)" by (simp add: dom_map_of_conv_image_fst)
  then show ?thesis by (simp add: map_add_upd_left)
qed

text \<open>
  Pairs that are new to the map are stored one after the other; the first id that the
  map already holds, from before the call or from an earlier pair, ends the loop.
\<close>

lemma FromFrame_loop_duplicate:
  assumes "decode_pairs b = (pre @ (k, w) # post, rest)" and "fresh s pre"
    and "s k \<noteq> None \<or> k \<in> fst ` set pre"
  shows "FromFrame_loop s b = (s ++ map_of pre, Some (DuplicateSetting k))"
  using assms
proof (induction pre arbitrary: s b)
  case Nil
  from decode_pairs_Cons[of b k w post rest] Nil(1)
  obtain b1 b2 where rd: "b \<noteq> []" "quicvarint_Read b = Inr (k, b1)"
      "quicvarint_Read b1 = Inr (w, b2)"
    by auto
  from Nil(3) have "s k \<noteq> None" by simp
  from FromFrame_loop_present[of b k b1 w b2 s, OF rd this] show ?case by simp
next
  case (Cons p pre)
  obtain k' w' where p: "p = (k', w')" by (cases p)
  from decode_pairs_Cons[of b k' w' "pre @ (k, w) # post" rest] Cons(2) p
  obtain b1 b2 where rd: "b \<noteq> []" "quicvarint_Read b = Inr (k', b1)"
      "quicvarint_Read b1 = Inr (w', b2)"
    and rest: "decode_pairs b2 = (pre @ (k, w) # post, rest)"
    by auto
  from Cons(3) p have f: "s k' = None" and f': "fresh (s(k' \<mapsto> w')) pre"
    by (simp_all add: fresh_Cons)
  from Cons(4) p have present: "(s(k' \<mapsto> w')) k \<noteq> None \<or> k \<in> fst ` set pre" by auto
  have "FromFrame_loop s b = FromFrame_loop (s(k' \<mapsto> w')) b2"
    by (rule FromFrame_loop_store[of b _ b1 _ b2 s, OF rd f])
  also have "\<dots> = (s(k' \<mapsto> w') ++ map_of pre, Some (DuplicateSetting k))"
    by (rule Cons.IH[OF rest f' present])
  also have "s(k' \<mapsto> w') ++ map_of pre = s ++ map_of (p # pre)"
    using Cons(3) unfolding p by (rule map_add_fresh_Cons)
  finally show ?case .
qed

lemma FromFrame_loop_fresh:
  assumes "decode_pairs b = (ps, rest)" and "fresh s ps"
  shows "FromFrame_loop s b = (s ++ map_of ps, if rest = [] then None else Some EOF)"
  using assms
proof (induction ps arbitrary: s b)
  case Nil
  from decode_pairs_none[OF Nil(1)]
  have r: "rest = b" and c: "b = [] \<or> quicvarint_Read b = Inl EOF
      \<or> (\<exists>k b1. quicvarint_Read b = Inr (k, b1) \<and> quicvarint_Read b1 = Inl EOF)"
    by simp_all
  from c show ?case
    by (subst FromFrame_loop.simps) (auto simp: r)
next
  case (Cons p ps)
  obtain k w where p: "p = (k, w)" by (cases p)
  from decode_pairs_Cons[of b k w ps rest] Cons(2) p
  obtain b1 b2 where rd: "b \<noteq> []" "quicvarint_Read b = Inr (k, b1)"
      "quicvarint_Read b1 = Inr (w, b2)"
    and rest: "decode_pairs b2 = (ps, rest)"
    by auto
  from Cons(3) p have f: "s k = None" and f': "fresh (s(k \<mapsto> w)) ps"
    by (simp_all add: fresh_Cons)
  have "FromFrame_loop s b = FromFrame_loop (s(k \<mapsto> w)) b2"
    by (rule FromFrame_loop_store[of b _ b1 _ b2 s, OF rd f])
  also have "\<dots> = (s(k \<mapsto> w) ++ map_of ps, if rest = [] then None else Some EOF)"
    by (rule Cons.IH[OF rest f'])
  also have "s(k \<mapsto> w) ++ map_of ps = s ++ map_of (p # ps)"
    using Cons(3) unfolding p by (rule map_add_fresh_Cons)
  finally show ?case .
qed

lemma FromFrame_loop_repeated:
  assumes "decode_pairs b = (ps, rest)"
    and "\<not> distinct (map fst ps) \<or> (\<exists>k \<in> fst ` set ps. s k \<noteq> None)"
  shows "\<exists>k s'. FromFrame_loop s b = (s', Some (DuplicateSetting k))"
  using assms
proof (induction ps arbitrary: s b)
  case Nil
  then show ?case by simp
next
  case (Cons p ps)
  obtain k w where p: "p = (k, w)" by (cases p)
  from decode_pairs_Cons[of b k w ps rest] Cons(2) p
  obtain b1 b2 where rd: "b \<noteq> []" "quicvarint_Read b = Inr (k, b1)"
      "quicvarint_Read b1 = Inr (w, b2)"
    and rest: "decode_pairs b2 = (ps, rest)"
    by auto
  show ?case
  proof (cases "s k = None")
    case False
    from FromFrame_loop_present[of b k b1 w b2 s, OF rd False] show ?thesis by blast
  next
    case True
    from Cons(3) p True
    have "\<not> distinct (map fst ps) \<or> (\<exists>k' \<in> fst ` set ps. (s(k \<mapsto> w)) k' \<noteq> None)"
      by auto
    from Cons.IH[OF rest this] FromFrame_loop_store[of b k b1 w b2 s, OF rd True] show ?thesis
      by (simp only:)
  qed
qed

section \<open>Settings: the frame ToFrame builds\<close>

lemma ToFrame_data_acc:
  "ToFrame_data es b = (case ToFrame_data es [] of Inl e \<Rightarrow> Inl e | Inr d \<Rightarrow> Inr (b @ d))"
proof (induction es arbitrary: b)
  case Nil
  show ?case by simp
next
  case (Cons p es)
  obtain k w where p: "p = (k, w)" by (cases p)
  have "ToFrame_data es (b @ x @ y)
      = (case ToFrame_data es (x @ y) of Inl e \<Rightarrow> Inl e | Inr d \<Rightarrow> Inr (b @ d))" for x y
    by (subst Cons.IH[of "b @ x @ y"], subst Cons.IH[of "x @ y"])
       (simp split: sum.splits)
  then show ?case
    unfolding p by (simp split: sum.splits)
qed

lemma ToFrame_data_Cons:
  assumes "ToFrame_data ((k, w) # es) [] = Inr d"
  shows "\<exists>x y d'. quicvarint_Append k = Inr x \<and> quicvarint_Append w = Inr y
           \<and> ToFrame_data es [] = Inr d' \<and> d = x @ y @ d'"
proof -
  from assms obtain x y where xy: "quicvarint_Append k = Inr x" "quicvarint_Append w = Inr y"
      and d: "ToFrame_data es (x @ y) = Inr d"
    by (auto split: sum.splits)
  from d obtain d' where "ToFrame_data es [] = Inr d'" "d = (x @ y) @ d'"
    by (subst (asm) ToFrame_data_acc) (auto split: sum.splits)
  with xy show ?thesis by auto
qed

lemma quicvarint_Append_nonempty: "quicvarint_Append v = Inr x \<Longrightarrow> x \<noteq> []"
  by (auto simp: quicvarint_Append_def split: if_splits)

lemma decode_pairs_encoded:
  assumes "quicvarint_Append k = Inr x" and "quicvarint_Append w = Inr y"
  shows "decode_pairs (x @ y @ d) = (case decode_pairs d of (ps, rest) \<Rightarrow> ((k, w) # ps, rest))"
  using quicvarint_Read_Append[OF assms(1), of "y @ d"] quicvarint_Read_Append[OF assms(2), of d]
    quicvarint_Append_nonempty[OF assms(1)]
  by (subst decode_pairs.simps) simp

lemma decode_pairs_ToFrame_data:
  "ToFrame_data es [] = Inr d \<Longrightarrow> decode_pairs d = (es, [])"
proof (induction es arbitrary: d)
  case Nil
  then show ?case by (simp add: decode_pairs_Nil)
next
  case (Cons p es)
  obtain k w where p: "p = (k, w)" by (cases p)
  from ToFrame_data_Cons[of k w es d] Cons(2) p
  obtain x y d' where xy: "quicvarint_Append k = Inr x" "quicvarint_Append w = Inr y"
      and d': "ToFrame_data es [] = Inr d'" and d: "d = x @ y @ d'"
    by auto
  from Cons.IH[OF d'] decode_pairs_encoded[OF xy, of d'] show ?case
    by (simp add: d p)
qed

text \<open>The length the first loop adds up, and the length of what the second writes.\<close>

definition pair_len :: "u64 \<times> u64 \<Rightarrow> nat" where
  "pair_len p = (case (quicvarint_Len (fst p), quicvarint_Len (snd p)) of
                   (Inr a, Inr b) \<Rightarrow> a + b | _ \<Rightarrow> 0)"

lemma ToFrame_length_sum:
  "ToFrame_length es l = Inr l' \<Longrightarrow> l' = l + of_nat (sum_list (map pair_len es))"
proof (induction es arbitrary: l)
  case Nil
  then show ?case by simp
next
  case (Cons p es)
  obtain k w where p: "p = (k, w)" by (cases p)
  from Cons(2) p obtain a b where ab: "quicvarint_Len k = Inr a" "quicvarint_Len w = Inr b"
      and r: "ToFrame_length es (l + of_nat (a + b)) = Inr l'"
    by (auto split: sum.splits)
  from Cons.IH[OF r] ab show ?case
    by (simp add: p pair_len_def add.assoc)
qed

lemma ToFrame_data_length:
  "ToFrame_data es [] = Inr d \<Longrightarrow> length d = sum_list (map pair_len es)"
proof (induction es arbitrary: d)
  case Nil
  then show ?case by simp
next
  case (Cons p es)
  obtain k w where p: "p = (k, w)" by (cases p)
  from ToFrame_data_Cons[of k w es d] Cons(2) p
  obtain x y d' where xy: "quicvarint_Append k = Inr x" "quicvarint_Append w = Inr y"
      and d': "ToFrame_data es [] = Inr d'" and d: "d = x @ y @ d'"
    by auto
  from Cons.IH[OF d'] quicvarint_Append_Len[OF xy(1)] quicvarint_Append_Len[OF xy(2)]
  show ?case by (simp add: d p pair_len_def)
qed

lemma ToFrame_length_ok:
  "list_all (\<lambda>p. fst p \<le> maxVarInt8 \<and> snd p \<le> maxVarInt8) es \<Longrightarrow> \<exists>l'. ToFrame_length es l = Inr l'"
  by (induction es arbitrary: l) (auto simp: quicvarint_Len_def)

lemma ToFrame_data_ok:
  "list_all (\<lambda>p. fst p \<le> maxVarInt8 \<and> snd p \<le> maxVarInt8) es \<Longrightarrow> \<exists>d. ToFrame_data es b = Inr d"
  by (induction es arbitrary: b) (auto simp: quicvarint_Append_def)

section \<open>Settings: the round trip and decoding in place\<close>

lemma fresh_changes:
  assumes "fresh s pre" and "pre \<noteq> []"
  shows "s ++ map_of pre \<noteq> s"
proof -
  from assms(2) obtain k w ps where p: "pre = (k, w) # ps" by (cases pre) auto
  with assms(1) have "s k = None" by (simp add: fresh_Cons)
  moreover have "(s ++ map_of pre) k = Some w" by (simp add: p)
  ultimately have "(s ++ map_of pre) k \<noteq> s k" by simp
  then show ?thesis by auto
qed

lemma small_length_word:
  assumes "n \<le> 8192"
  shows "\<not> 8 * 2 ^ 10 < (of_nat n :: u64)"
proof -
  from assms have "unat (of_nat n :: u64) = n" by (simp add: unat_of_nat)
  with assms show ?thesis by (simp add: word_less_nat_alt)
qed

text \<open>
  The encoded size of a settings map, from its entries alone: each id and each value
  takes 1, 2, 4 or 8 bytes, the least that holds it.
\<close>

definition varint_size :: "u64 \<Rightarrow> nat" where
  "varint_size v = (if v < 2 ^ 6 then 1 else if v < 2 ^ 14 then 2 else if v < 2 ^ 30 then 4 else 8)"

definition encoded_size :: "(u64 \<times> u64) list \<Rightarrow> nat" where
  "encoded_size es = sum_list (map (\<lambda>p. varint_size (fst p) + varint_size (snd p)) es)"

lemma quicvarint_Len_varint_size:
  "v \<le> maxVarInt8 \<Longrightarrow> quicvarint_Len v = Inr (varint_size v)"
  by (auto simp: quicvarint_Len_def varint_size_def maxVarInt1_def maxVarInt2_def
      maxVarInt4_def word_le_nat_alt word_less_nat_alt)

lemma pair_len_encoded_size:
  "list_all (\<lambda>p. fst p \<le> maxVarInt8 \<and> snd p \<le> maxVarInt8) es
     \<Longrightarrow> sum_list (map pair_len es) = encoded_size es"
  by (induction es) (simp_all add: encoded_size_def pair_len_def quicvarint_Len_varint_size)

text \<open>
  C5 (as amended). The entries of a settings map \<open>m\<close>, ids and values all below \<open>2^62\<close>,
  are given in the orders \<open>es1\<close> and \<open>es2\<close> in which the two loops of \<open>ToFrame\<close> visit
  them. When the encoded size of the map is at most 8192 bytes, \<open>ToFrame\<close> returns a
  \<open>SETTINGS\<close> frame whose length field and whose payload length are that size, and
  \<open>FromFrame\<close> of that frame into an empty map leaves exactly \<open>m\<close> and reports no
  error. \<open>FromFrame\<close> tests the size first: a frame whose length field exceeds 8192 is
  refused with the size error, the receiver untouched, and a frame within the limit whose
  payload repeats a setting id is refused with a duplicate-setting error.
\<close>

theorem SettingsMap_frame_round_trip:
  "(distinct (map fst es1) \<and> distinct (map fst es2) \<and> map_of es1 = m \<and> map_of es2 = m
      \<and> list_all (\<lambda>p. fst p \<le> maxVarInt8 \<and> snd p \<le> maxVarInt8) es1
      \<and> encoded_size es1 \<le> 8192 \<longrightarrow>
      (\<exists>f. ToFrame es1 es2 = Inr f \<and> Type f = FRAME_SETTINGS
          \<and> unat (Length f) = encoded_size es1 \<and> length (Data f) = encoded_size es1
          \<and> FromFrame Map.empty f = (m, None)))
   \<and> (Length g \<le> 8192 \<and> \<not> distinct (map fst (fst (decode_pairs (Data g)))) \<longrightarrow>
        (\<exists>k s'. FromFrame s g = (s', Some (DuplicateSetting k))))
   \<and> (8192 < Length g \<longrightarrow> FromFrame s g = (s, Some (UnexpectedSettingsSize (Length g))))"
proof (intro conjI impI)
  assume a: "distinct (map fst es1) \<and> distinct (map fst es2) \<and> map_of es1 = m \<and> map_of es2 = m
      \<and> list_all (\<lambda>p. fst p \<le> maxVarInt8 \<and> snd p \<le> maxVarInt8) es1
      \<and> encoded_size es1 \<le> 8192"
  then have same: "set es1 = set es2"
    using map_of_inject_set[of es1 es2] by simp
  from a have d1: "distinct es1" and d2: "distinct es2" by (simp_all add: distinct_map)
  from a have ok1: "list_all (\<lambda>p. fst p \<le> maxVarInt8 \<and> snd p \<le> maxVarInt8) es1" by simp
  with same have ok2: "list_all (\<lambda>p. fst p \<le> maxVarInt8 \<and> snd p \<le> maxVarInt8) es2"
    by (simp add: list_all_iff)
  from ok1 obtain l where l: "ToFrame_length es1 0 = Inr l"
    using ToFrame_length_ok[of es1 0] by auto
  from ok2 obtain d where d: "ToFrame_data es2 [] = Inr d"
    using ToFrame_data_ok[of es2 "[]"] by auto
  let ?f = "\<lparr>Type = FRAME_SETTINGS, SessionID = 0, Length = l, Data = d\<rparr>"
  have f: "ToFrame es1 es2 = Inr ?f" by (simp add: ToFrame_def l d)
  have sums: "sum_list (map pair_len es2) = sum_list (map pair_len es1)"
    using d1 d2 same by (simp add: sum_list_distinct_conv_sum_set)
  from ToFrame_data_length[OF d] sums pair_len_encoded_size[OF ok1]
  have dlen: "length d = encoded_size es1" by simp
  from ToFrame_length_sum[OF l] pair_len_encoded_size[OF ok1]
  have len: "l = of_nat (encoded_size es1)" by simp
  from a have small: "encoded_size es1 \<le> 8192" by simp
  then have ulen: "unat l = encoded_size es1" by (simp add: len unat_of_nat)
  from a have "fresh Map.empty es2" by (simp add: fresh_def list_all_iff)
  from FromFrame_loop_fresh[OF decode_pairs_ToFrame_data[OF d] this] a
  have "FromFrame_loop Map.empty d = (m, None)" by simp
  with small_length_word[OF small] have rt: "FromFrame Map.empty ?f = (m, None)"
    by (simp add: FromFrame_def len)
  from f ulen dlen rt show "\<exists>f. ToFrame es1 es2 = Inr f \<and> Type f = FRAME_SETTINGS
          \<and> unat (Length f) = encoded_size es1 \<and> length (Data f) = encoded_size es1
          \<and> FromFrame Map.empty f = (m, None)"
    by simp
next
  assume a: "Length g \<le> 8192 \<and> \<not> distinct (map fst (fst (decode_pairs (Data g))))"
  obtain ps rest where dp: "decode_pairs (Data g) = (ps, rest)"
    by (cases "decode_pairs (Data g)")
  with a have "\<not> distinct (map fst ps)" by simp
  then have "\<exists>k s'. FromFrame_loop s (Data g) = (s', Some (DuplicateSetting k))"
    by (intro FromFrame_loop_repeated[OF dp]) simp
  moreover from a have "\<not> 8 * 2 ^ 10 < Length g" by (simp add: not_less)
  ultimately show "\<exists>k s'. FromFrame s g = (s', Some (DuplicateSetting k))"
    by (simp add: FromFrame_def)
next
  assume "8192 < Length g"
  then show "FromFrame s g = (s, Some (UnexpectedSettingsSize (Length g)))"
    by (simp add: FromFrame_def)
qed

theorem SettingsMap_frame_round_trip_witness:
  "ToFrame [(6, 16384), (7, 100)] [(7, 100), (6, 16384)]
     = Inr \<lparr>Type = FRAME_SETTINGS, SessionID = 0, Length = 8,
            Data = [0x07, 0x40, 0x64, 0x06, 0x80, 0x00, 0x40, 0x00]\<rparr>
   \<and> encoded_size [(6, 16384), (7, 100)] = 8
   \<and> FromFrame Map.empty \<lparr>Type = FRAME_SETTINGS, SessionID = 0, Length = 8,
            Data = [0x07, 0x40, 0x64, 0x06, 0x80, 0x00, 0x40, 0x00]\<rparr>
     = (map_of [(6, 16384), (7, 100)], None)
   \<and> (\<exists>k s'. FromFrame Map.empty
          \<lparr>Type = FRAME_SETTINGS, SessionID = 0, Length = 4, Data = [0x01, 0x01, 0x01, 0x02]\<rparr>
        = (s', Some (DuplicateSetting k)))
   \<and> FromFrame Map.empty \<lparr>Type = FRAME_SETTINGS, SessionID = 0, Length = 9000, Data = []\<rparr>
     = (Map.empty, Some (UnexpectedSettingsSize 9000))"
proof -
  have t: "ToFrame [(6, 16384), (7, 100)] [(7, 100), (6, 16384)]
     = Inr \<lparr>Type = FRAME_SETTINGS, SessionID = 0, Length = 8,
            Data = [0x07, 0x40, 0x64, 0x06, 0x80, 0x00, 0x40, 0x00]\<rparr>"
    by (simp add: ToFrame_def quicvarint_Len_def quicvarint_Append_def maxVarInt1_def
        maxVarInt2_def maxVarInt4_def)
  have e: "encoded_size [(6, 16384), (7, 100)] = 8"
    by (simp add: encoded_size_def varint_size_def)
  have m: "map_of [(7, 100), (6, 16384)] = map_of [(6, 16384), (7, 100 :: u64) :: u64 \<times> u64]"
    by (auto simp: fun_eq_iff)
  have p: "decode_pairs [0x01, 0x01, 0x01, 0x02] = ([(1, 1), (1, 2)], [])"
    by (simp add: decode_pairs.simps)
  note a = SettingsMap_frame_round_trip
    [of "[(6, 16384), (7, 100)]" "[(7, 100), (6, 16384)]" "map_of [(6, 16384), (7, 100)]"
        "\<lparr>Type = FRAME_SETTINGS, SessionID = 0, Length = 4, Data = [0x01, 0x01, 0x01, 0x02]\<rparr>"
        Map.empty]
  note b = SettingsMap_frame_round_trip
    [of "[]" "[]" Map.empty
        "\<lparr>Type = FRAME_SETTINGS, SessionID = 0, Length = 9000, Data = []\<rparr>" Map.empty]
  from a t e m p b show ?thesis
    by (simp add: maxVarInt8_def)
qed

text \<open>
  The claim as first stated fails in two ways. A frame whose length field is 9000 and
  whose payload \<open>01 01 01 02\<close> gives the id 1 twice is refused for its size, not as a
  duplicate. A map that holds the value \<open>2^62\<close> has an encoded size of 9 bytes, and
  \<open>ToFrame\<close> panics on it.
\<close>

theorem FromFrame_size_before_duplicate:
  "decode_pairs [0x01, 0x01, 0x01, 0x02] = ([(1, 1), (1, 2)], [])
   \<and> FromFrame Map.empty
        \<lparr>Type = FRAME_SETTINGS, SessionID = 0, Length = 9000, Data = [0x01, 0x01, 0x01, 0x02]\<rparr>
     = (Map.empty, Some (UnexpectedSettingsSize 9000))
   \<and> encoded_size [(1, 0x4000000000000000)] = 9
   \<and> ToFrame [(1, 0x4000000000000000)] [(1, 0x4000000000000000)]
     = Inl (VarintOverflow 0x4000000000000000)"
  by (simp add: decode_pairs.simps FromFrame_def ToFrame_def encoded_size_def varint_size_def
      quicvarint_Len_def maxVarInt1_def maxVarInt2_def maxVarInt4_def maxVarInt8_def)

text \<open>
  C10. \<open>FromFrame\<close> decodes into the receiver in place. The payload of a frame within
  the size limit holds the pairs \<open>ps\<close>, followed by \<open>rest\<close>. When the pairs \<open>pre\<close> are
  new to the receiver \<open>s\<close> and the next pair names an id that \<open>s\<close> held before the call
  (or that \<open>pre\<close> holds), that id is reported as a duplicate, and the receiver is left
  holding the pairs \<open>pre\<close> on top of \<open>s\<close>: it has changed as soon as \<open>pre\<close> is not empty.
  When all the pairs are new and a cut-off pair follows them, the error is the end of
  input and the pairs stay stored all the same.
\<close>

theorem FromFrame_in_place:
  assumes "Length f \<le> 8192" and "decode_pairs (Data f) = (ps, rest)"
  shows "(ps = pre @ (k, w) # post \<and> fresh s pre \<and> (s k \<noteq> None \<or> k \<in> fst ` set pre) \<longrightarrow>
            FromFrame s f = (s ++ map_of pre, Some (DuplicateSetting k))
            \<and> (pre \<noteq> [] \<longrightarrow> fst (FromFrame s f) \<noteq> s))
       \<and> (fresh s ps \<and> rest \<noteq> [] \<longrightarrow>
            FromFrame s f = (s ++ map_of ps, Some EOF)
            \<and> (ps \<noteq> [] \<longrightarrow> fst (FromFrame s f) \<noteq> s))"
proof -
  from assms(1) have size: "\<not> 8 * 2 ^ 10 < Length f" by (simp add: not_less)
  show ?thesis
  proof (intro conjI impI)
    assume a: "ps = pre @ (k, w) # post \<and> fresh s pre \<and> (s k \<noteq> None \<or> k \<in> fst ` set pre)"
    with assms(2) have "decode_pairs (Data f) = (pre @ (k, w) # post, rest)" by simp
    from FromFrame_loop_duplicate[OF this] a size
    show r: "FromFrame s f = (s ++ map_of pre, Some (DuplicateSetting k))"
      by (simp add: FromFrame_def)
    assume "pre \<noteq> []"
    with a r show "fst (FromFrame s f) \<noteq> s" by (simp add: fresh_changes)
  next
    assume a: "fresh s ps \<and> rest \<noteq> []"
    from FromFrame_loop_fresh[OF assms(2)] a size
    show r: "FromFrame s f = (s ++ map_of ps, Some EOF)"
      by (simp add: FromFrame_def)
    assume "ps \<noteq> []"
    with a r show "fst (FromFrame s f) \<noteq> s" by (simp add: fresh_changes)
  qed
qed

theorem FromFrame_in_place_witness:
  "FromFrame [1 \<mapsto> 5]
      \<lparr>Type = FRAME_SETTINGS, SessionID = 0, Length = 4, Data = [0x02, 0x09, 0x01, 0x07]\<rparr>
     = ([1 \<mapsto> 5] ++ map_of [(2, 9)], Some (DuplicateSetting 1))
   \<and> fst (FromFrame [1 \<mapsto> 5]
      \<lparr>Type = FRAME_SETTINGS, SessionID = 0, Length = 4, Data = [0x02, 0x09, 0x01, 0x07]\<rparr>)
     \<noteq> [1 \<mapsto> 5]
   \<and> FromFrame [1 \<mapsto> 5]
      \<lparr>Type = FRAME_SETTINGS, SessionID = 0, Length = 3, Data = [0x02, 0x09, 0x03]\<rparr>
     = ([1 \<mapsto> 5] ++ map_of [(2, 9)], Some EOF)"
proof -
  have p: "decode_pairs [0x02, 0x09, 0x01, 0x07] = ([(2, 9), (1, 7)], [])"
    by (simp add: decode_pairs.simps)
  have q: "decode_pairs [0x02, 0x09, 0x03] = ([(2, 9)], [0x03])"
    by (simp add: decode_pairs.simps)
  have fr: "fresh [1 \<mapsto> 5] [(2, 9)]" by (simp add: fresh_def)
  have "([1 \<mapsto> 5, 2 \<mapsto> 9] :: SettingsMap) 2 \<noteq> ([1 \<mapsto> 5] :: SettingsMap) 2" by simp
  then have ne: "([1 \<mapsto> 5, 2 \<mapsto> 9] :: SettingsMap) \<noteq> [1 \<mapsto> 5]" by metis
  note a = FromFrame_in_place
    [of "\<lparr>Type = FRAME_SETTINGS, SessionID = 0, Length = 4, Data = [0x02, 0x09, 0x01, 0x07]\<rparr>"
        "[(2, 9), (1, 7)]" "[]" "[(2, 9)]" 1 7 "[]" "[1 \<mapsto> 5]"]
  note b = FromFrame_in_place
    [of "\<lparr>Type = FRAME_SETTINGS, SessionID = 0, Length = 3, Data = [0x02, 0x09, 0x03]\<rparr>"
        "[(2, 9)]" "[0x03]" "[]" 2 9 "[]" "[1 \<mapsto> 5]"]
  from a p fr ne have "FromFrame [1 \<mapsto> 5]
      \<lparr>Type = FRAME_SETTINGS, SessionID = 0, Length = 4, Data = [0x02, 0x09, 0x01, 0x07]\<rparr>
     = ([1 \<mapsto> 5] ++ map_of [(2, 9)], Some (DuplicateSetting 1))
   \<and> fst (FromFrame [1 \<mapsto> 5]
      \<lparr>Type = FRAME_SETTINGS, SessionID = 0, Length = 4, Data = [0x02, 0x09, 0x01, 0x07]\<rparr>)
     \<noteq> [1 \<mapsto> 5]"
    by simp
  moreover from b q fr have "FromFrame [1 \<mapsto> 5]
      \<lparr>Type = FRAME_SETTINGS, SessionID = 0, Length = 3, Data = [0x02, 0x09, 0x03]\<rparr>
     = ([1 \<mapsto> 5] ++ map_of [(2, 9)], Some EOF)"
    by simp
  ultimately show ?thesis by blast
qed

section \<open>Request decoding (h3, RequestFromHeaders)\<close>

text \<open>
  \<open>qpack.HeaderField\<close> with its fields \<open>Name\<close> and \<open>Value\<close>; \<open>IsPseudo\<close> tests the first
  character of the name.
\<close>

record HeaderField =
  Name :: string
  Value :: string

definition IsPseudo :: "HeaderField \<Rightarrow> bool" where
  "IsPseudo f = (case Name f of [] \<Rightarrow> False | c # _ \<Rightarrow> c = CHR '':'')"

text \<open>
  \<open>http.Header\<close> is \<open>map[string][]string\<close>. \<open>Add\<close> and \<open>Set\<close> store under the canonical
  form of the key, \<open>textproto.CanonicalMIMEHeaderKey\<close>, a parameter; an index expression
  reads the key as it is written.
\<close>

type_synonym Header = "string \<rightharpoonup> string list"

definition Header_Add :: "(string \<Rightarrow> string) \<Rightarrow> Header \<Rightarrow> string \<Rightarrow> string \<Rightarrow> Header" where
  "Header_Add canonical h key v =
     h(canonical key \<mapsto> (case h (canonical key) of None \<Rightarrow> [] | Some vs \<Rightarrow> vs) @ [v])"

definition Header_Set :: "(string \<Rightarrow> string) \<Rightarrow> Header \<Rightarrow> string \<Rightarrow> string \<Rightarrow> Header" where
  "Header_Set canonical h key v = h(canonical key \<mapsto> [v])"

fun strings_Join :: "string list \<Rightarrow> string \<Rightarrow> string" where
  "strings_Join [] sep = []"
| "strings_Join [x] sep = x"
| "strings_Join (x # y # xs) sep = x @ sep @ strings_Join (y # xs) sep"

text \<open>The variables of the loop over the header fields, and one turn of the loop.\<close>

record header_scan =
  path :: string authority :: string method' :: string
  protocol :: string contentLengthStr :: string
  httpHeaders :: Header

definition scan_start :: header_scan where
  "scan_start = \<lparr>path = [], authority = [], method' = [], protocol = [],
                  contentLengthStr = [], httpHeaders = Map.empty\<rparr>"

definition scan_field :: "(string \<Rightarrow> string) \<Rightarrow> header_scan \<Rightarrow> HeaderField \<Rightarrow> header_scan" where
  "scan_field canonical a h =
     (if Name h = '':path'' then a\<lparr>path := Value h\<rparr>
      else if Name h = '':method'' then a\<lparr>method' := Value h\<rparr>
      else if Name h = '':authority'' then a\<lparr>authority := Value h\<rparr>
      else if Name h = '':protocol'' then a\<lparr>protocol := Value h\<rparr>
      else if Name h = ''content-length'' then a\<lparr>contentLengthStr := Value h\<rparr>
      else if \<not> IsPseudo h then
        a\<lparr>httpHeaders := Header_Add canonical (httpHeaders a) (Name h) (Value h)\<rparr>
      else a)"

text \<open>
  The \<open>http.Request\<close> that is returned, without its \<open>Body\<close> (nil) and its \<open>TLS\<close> state
  (empty). The URL is what \<open>url.ParseRequestURI\<close> makes of a string; that function
  and \<open>strconv.ParseInt\<close> (base 10, 64 bits) are parameters, \<open>None\<close> their error.
\<close>

record 'url Request =
  Method :: string
  URL :: 'url
  Proto :: string
  ProtoMajor :: int
  ProtoMinor :: int
  Header :: Header
  ContentLength :: int
  Host :: string
  RequestURI :: string

definition RequestFromHeaders ::
    "(string \<Rightarrow> 'url option) \<Rightarrow> (string \<Rightarrow> string) \<Rightarrow> (string \<Rightarrow> int option)
       \<Rightarrow> HeaderField list \<Rightarrow> error + ('url Request \<times> string)" where
  "RequestFromHeaders ParseRequestURI canonical ParseInt headers =
     (let a = foldl (scan_field canonical) scan_start headers;
          cookies = (case httpHeaders a ''Cookie'' of None \<Rightarrow> [] | Some vs \<Rightarrow> vs);
          hdrs = (if length cookies > 0
                  then Header_Set canonical (httpHeaders a) ''Cookie''
                         (strings_Join cookies ''; '')
                  else httpHeaders a);
          target =
            (if method' a = ''CONNECT'' then
               (case ParseRequestURI (''https://'' @ authority a @ path a) of
                  None \<Rightarrow> Inl URLError
                | Some u \<Rightarrow> Inr (u, path a))
             else if length (path a) = 0 \<or> length (authority a) = 0 \<or> length (method' a) = 0
               then Inl ErrPathAuthorityMethodEmpty
             else
               (case ParseRequestURI (path a) of
                  None \<Rightarrow> Inl URLError
                | Some u \<Rightarrow> Inr (u, path a)))
      in case target of
           Inl e \<Rightarrow> Inl e
         | Inr (u, requestURI) \<Rightarrow>
             (case (if length (contentLengthStr a) > 0
                    then (case ParseInt (contentLengthStr a) of
                            None \<Rightarrow> Inl ParseIntError
                          | Some n \<Rightarrow> Inr n)
                    else Inr 0) of
                Inl e \<Rightarrow> Inl e
              | Inr contentLength \<Rightarrow>
                  Inr (\<lparr>Method = method' a, URL = u, Proto = ''HTTP/3'', ProtoMajor = 3,
                        ProtoMinor = 0, Header = hdrs, ContentLength = contentLength,
                        Host = authority a, RequestURI = requestURI\<rparr>,
                       if length (protocol a) = 0 then ''h3'' else protocol a)))"

text \<open>
  The value a header list gives a name: that of the last field of that name, and the
  empty string when there is none.
\<close>

definition field_value :: "string \<Rightarrow> HeaderField list \<Rightarrow> string" where
  "field_value n hs = foldl (\<lambda>v h. if Name h = n then Value h else v) [] hs"

section \<open>Request decoding: the three mandatory pseudo-headers\<close>

lemma scan_field_pseudo:
  "path (scan_field c a h) = (if Name h = '':path'' then Value h else path a)"
  "method' (scan_field c a h) = (if Name h = '':method'' then Value h else method' a)"
  "authority (scan_field c a h) = (if Name h = '':authority'' then Value h else authority a)"
  by (simp_all add: scan_field_def)

lemma scan_pseudo:
  "path (foldl (scan_field c) a hs)
     = foldl (\<lambda>v h. if Name h = '':path'' then Value h else v) (path a) hs"
  "method' (foldl (scan_field c) a hs)
     = foldl (\<lambda>v h. if Name h = '':method'' then Value h else v) (method' a) hs"
  "authority (foldl (scan_field c) a hs)
     = foldl (\<lambda>v h. if Name h = '':authority'' then Value h else v) (authority a) hs"
  by (induction hs arbitrary: a) (simp_all add: scan_field_pseudo)

lemma scan_field_value:
  "path (foldl (scan_field c) scan_start hs) = field_value '':path'' hs"
  "method' (foldl (scan_field c) scan_start hs) = field_value '':method'' hs"
  "authority (foldl (scan_field c) scan_start hs) = field_value '':authority'' hs"
  by (simp_all add: scan_pseudo field_value_def scan_start_def)

text \<open>
  C4 (as amended). For every decoded header list whose \<open>:method\<close> is not \<open>CONNECT\<close> and in
  which any of \<open>:path\<close>, \<open>:authority\<close> or \<open>:method\<close> is empty or missing, request decoding
  fails with \<open>ErrPathAuthorityMethodEmpty\<close>; and on no other list does it fail with that
  error: a \<open>CONNECT\<close> request is not tested for empty pseudo-headers.
\<close>

theorem RequestFromHeaders_empty_pseudo_header:
  "RequestFromHeaders ParseRequestURI canonical ParseInt hs = Inl ErrPathAuthorityMethodEmpty
     \<longleftrightarrow> field_value '':method'' hs \<noteq> ''CONNECT''
         \<and> (field_value '':path'' hs = [] \<or> field_value '':authority'' hs = []
              \<or> field_value '':method'' hs = [])"
proof (cases "field_value '':method'' hs = ''CONNECT''")
  case True
  then show ?thesis
    by (auto simp: RequestFromHeaders_def Let_def scan_field_value split: option.splits)
next
  case False
  show ?thesis
  proof (cases "field_value '':path'' hs = [] \<or> field_value '':authority'' hs = []
              \<or> field_value '':method'' hs = []")
    case True
    with False show ?thesis
      by (auto simp: RequestFromHeaders_def Let_def scan_field_value)
  next
    case nonempty: False
    with False show ?thesis
      by (auto simp: RequestFromHeaders_def Let_def scan_field_value split: option.splits)
  qed
qed

theorem RequestFromHeaders_empty_pseudo_header_witness:
  "RequestFromHeaders (\<lambda>s. Some s) (\<lambda>k. k) (\<lambda>s. None)
      [\<lparr>Name = '':method'', Value = ''GET''\<rparr>, \<lparr>Name = '':path'', Value = ''/''\<rparr>]
     = Inl ErrPathAuthorityMethodEmpty
   \<and> RequestFromHeaders (\<lambda>s. Some s) (\<lambda>k. k) (\<lambda>s. None)
      [\<lparr>Name = '':method'', Value = ''CONNECT''\<rparr>,
       \<lparr>Name = ''content-length'', Value = ''abc''\<rparr>]
     \<noteq> Inl ErrPathAuthorityMethodEmpty"
  using RequestFromHeaders_empty_pseudo_header
    [of "\<lambda>s. Some s" "\<lambda>k. k" "\<lambda>s. None"
        "[\<lparr>Name = '':method'', Value = ''GET''\<rparr>, \<lparr>Name = '':path'', Value = ''/''\<rparr>]"]
    RequestFromHeaders_empty_pseudo_header
    [of "\<lambda>s. Some s" "\<lambda>k. k" "\<lambda>s. None"
        "[\<lparr>Name = '':method'', Value = ''CONNECT''\<rparr>,
          \<lparr>Name = ''content-length'', Value = ''abc''\<rparr>]"]
  by (simp add: field_value_def)

text \<open>
  The claim as first stated fails on a \<open>CONNECT\<close> request without a \<open>:path\<close>: whether
  \<open>url.ParseRequestURI\<close> refuses \<open>https://example.com\<close> or accepts it, the result is not
  \<open>ErrPathAuthorityMethodEmpty\<close>. The list has no ordinary field and no content length,
  so the other two parameters are not called.
\<close>

theorem RequestFromHeaders_CONNECT_empty_path:
  "field_value '':path''
      [\<lparr>Name = '':method'', Value = ''CONNECT''\<rparr>,
       \<lparr>Name = '':authority'', Value = ''example.com''\<rparr>] = []
   \<and> RequestFromHeaders (\<lambda>s. None :: string option) (\<lambda>k. k) (\<lambda>s. None)
      [\<lparr>Name = '':method'', Value = ''CONNECT''\<rparr>,
       \<lparr>Name = '':authority'', Value = ''example.com''\<rparr>]
     = Inl URLError
   \<and> RequestFromHeaders (\<lambda>s. Some s) (\<lambda>k. k) (\<lambda>s. None)
      [\<lparr>Name = '':method'', Value = ''CONNECT''\<rparr>,
       \<lparr>Name = '':authority'', Value = ''example.com''\<rparr>]
     = Inr (\<lparr>Method = ''CONNECT'', URL = ''https://example.com'', Proto = ''HTTP/3'',
             ProtoMajor = 3, ProtoMinor = 0, Header = Map.empty, ContentLength = 0,
             Host = ''example.com'', RequestURI = []\<rparr>, ''h3'')"
  by (simp add: RequestFromHeaders_def field_value_def scan_field_def scan_start_def)

section \<open>The response writer (h3)\<close>

text \<open>
  \<open>stream\<close> is what the request stream has been sent, \<open>bufferedStream\<close> what the
  \<open>bufio.Writer\<close> in front of it still holds. \<open>header\<close> lists the entries of the header
  map in the order a range over it visits them.
\<close>

record ResponseWriter =
  stream :: "byte list"
  bufferedStream :: "byte list"
  header :: "(string \<times> string list) list"
  status :: int
  headerWritten :: bool
  dataStreamUsed :: bool

definition NewResponseWriter :: ResponseWriter where
  "NewResponseWriter =
     \<lparr>stream = [], bufferedStream = [], header = [], status = 0, headerWritten = False,
      dataStreamUsed = False\<rparr>"

text \<open>
  \<open>bufio.Writer.Write\<close> with the default buffer of 4096 bytes, on a stream that takes
  every write: a slice that does not fit the free space goes to the stream at once when
  the buffer is empty; otherwise the buffer is filled and flushed first.
\<close>

definition bufio_size :: nat where "bufio_size = 4096"

definition bufio_Write :: "ResponseWriter \<Rightarrow> byte list \<Rightarrow> ResponseWriter" where
  "bufio_Write w p =
     (let avail = bufio_size - length (bufferedStream w)
      in if length p \<le> avail then w\<lparr>bufferedStream := bufferedStream w @ p\<rparr>
         else if bufferedStream w = [] then w\<lparr>stream := stream w @ p\<rparr>
         else
           (let w1 = w\<lparr>stream := stream w @ bufferedStream w @ take avail p,
                        bufferedStream := []\<rparr>;
                p1 = drop avail p
            in if length p1 \<le> bufio_size then w1\<lparr>bufferedStream := p1\<rparr>
               else w1\<lparr>stream := stream w1 @ p1\<rparr>))"

definition Flush :: "ResponseWriter \<Rightarrow> ResponseWriter" where
  "Flush w = w\<lparr>stream := stream w @ bufferedStream w, bufferedStream := []\<rparr>"

definition bodyAllowedForStatus :: "int \<Rightarrow> bool" where
  "bodyAllowedForStatus st =
     (if st \<ge> 100 \<and> st \<le> 199 then False
      else if st = 204 then False
      else if st = 304 then False
      else True)"

text \<open>
  \<open>strconv.Itoa\<close>, \<open>strings.ToLower\<close> and the QPACK encoder, which turns the fields
  written to it into a header block, are outside the sources and parameters here.
\<close>

record extern =
  strconv_Itoa :: "int \<Rightarrow> string"
  strings_ToLower :: "string \<Rightarrow> string"
  qpack_encode :: "(string \<times> string) list \<Rightarrow> byte list"

text \<open>
  \<open>WriteHeader\<close>: the writer after the call, and the panic of \<open>Frame.Write\<close> if there
  is one.
\<close>

definition WriteHeader :: "extern \<Rightarrow> int \<Rightarrow> ResponseWriter \<Rightarrow> ResponseWriter \<times> error option" where
  "WriteHeader X st w =
     (if headerWritten w then (w, None)
      else
        (let w1 = (if st < 100 \<or> st \<ge> 200 then w\<lparr>headerWritten := True\<rparr> else w);
             w2 = w1\<lparr>status := st\<rparr>;
             headers = qpack_encode X
               (('':status'', strconv_Itoa X st)
                # concat (map (\<lambda>(k, v). map (\<lambda>x. (strings_ToLower X k, x)) v) (header w2)));
             headersFrame = \<lparr>Type = FRAME_HEADERS, SessionID = 0,
                              Length = of_nat (length headers), Data = headers\<rparr>
         in case Frame_Write headersFrame of
              Inl e \<Rightarrow> (w2, Some e)
            | Inr bs \<Rightarrow>
                (let w3 = bufio_Write w2 bs
                 in if \<not> headerWritten w3 then (Flush w3, None) else (w3, None))))"

text \<open>
  \<open>Write\<close>: the writer after the call, and the number of bytes written or the error
  (\<open>ErrBodyNotAllowed\<close>, or a panic).
\<close>

definition Write :: "extern \<Rightarrow> byte list \<Rightarrow> ResponseWriter \<Rightarrow> ResponseWriter \<times> (error + nat)" where
  "Write X p w =
     (case (if \<not> headerWritten w then WriteHeader X 200 w else (w, None)) of
        (w1, Some e) \<Rightarrow> (w1, Inl e)
      | (w1, None) \<Rightarrow>
          if \<not> bodyAllowedForStatus (status w1) then (w1, Inl ErrBodyNotAllowed)
          else
            (let dataFrame = \<lparr>Type = FRAME_DATA, SessionID = 0, Length = of_nat (length p),
                               Data = p\<rparr>
             in case Frame_Write dataFrame of
                  Inl e \<Rightarrow> (w1, Inl e)
                | Inr bs \<Rightarrow> (bufio_Write w1 bs, Inr (length bs))))"

text \<open>
  A sequence of calls on one writer. A panic ends it; \<open>ErrBodyNotAllowed\<close> is returned
  to the caller, who may go on.
\<close>

datatype call = Call_WriteHeader int | Call_Write "byte list"

fun run :: "extern \<Rightarrow> call list \<Rightarrow> ResponseWriter \<Rightarrow> ResponseWriter \<times> error option" where
  "run X [] w = (w, None)"
| "run X (Call_WriteHeader st # cs) w =
     (case WriteHeader X st w of
        (w', Some e) \<Rightarrow> (w', Some e)
      | (w', None) \<Rightarrow> run X cs w')"
| "run X (Call_Write p # cs) w =
     (case Write X p w of
        (w', Inl e) \<Rightarrow> if e = ErrBodyNotAllowed then run X cs w' else (w', Some e)
      | (w', Inr n) \<Rightarrow> run X cs w')"

text \<open>
  The frames a peer reads off the bytes of the response, one \<open>Frame.Read\<close> after the
  other until the bytes run out or a read fails.
\<close>

function wire_frames :: "byte list \<Rightarrow> Frame list" where
  "wire_frames b =
     (if b = [] then []
      else (case Frame_Read Frame_zero \<lparr>pending = b, eof_on_empty_read = False\<rparr> of
          (f, err, r) \<Rightarrow>
            if err = None \<and> length (pending r) < length b then f # wire_frames (pending r)
            else []))"
  by pat_completeness auto
termination
  by (relation "measure length") auto

declare wire_frames.simps [simp del]

text \<open>The two kinds of frame the writer builds.\<close>

definition headers_block :: "extern \<Rightarrow> (string \<times> string list) list \<Rightarrow> int \<Rightarrow> byte list" where
  "headers_block X hdr st =
     qpack_encode X
       (('':status'', strconv_Itoa X st)
        # concat (map (\<lambda>(k, v). map (\<lambda>x. (strings_ToLower X k, x)) v) hdr))"

definition HEADERS_frame :: "extern \<Rightarrow> (string \<times> string list) list \<Rightarrow> int \<Rightarrow> Frame" where
  "HEADERS_frame X hdr st =
     \<lparr>Type = FRAME_HEADERS, SessionID = 0, Length = of_nat (length (headers_block X hdr st)),
      Data = headers_block X hdr st\<rparr>"

definition DATA_frame :: "byte list \<Rightarrow> Frame" where
  "DATA_frame p = \<lparr>Type = FRAME_DATA, SessionID = 0, Length = of_nat (length p), Data = p\<rparr>"

text \<open>
  A stand-in for the three external functions, for evaluating the model on given calls:
  the header block it writes is one byte, the number of fields.
\<close>

definition sample_extern :: extern where
  "sample_extern =
     \<lparr>strconv_Itoa = (\<lambda>n. []), strings_ToLower = (\<lambda>s. s),
      qpack_encode = (\<lambda>fields. [of_nat (length fields)])\<rparr>"

section \<open>The response writer: the frames on the wire\<close>

definition frame_bytes :: "Frame \<Rightarrow> byte list" where
  "frame_bytes f = (case Frame_Write f of Inl e \<Rightarrow> [] | Inr bs \<Rightarrow> bs)"

text \<open>
  A frame as the writer builds it: \<open>DATA\<close> or \<open>HEADERS\<close>, no session id, and a length
  field that is the length of a payload the runtime can hold.
\<close>

definition plain_frame :: "Frame \<Rightarrow> bool" where
  "plain_frame f =
     ((Type f = FRAME_DATA \<or> Type f = FRAME_HEADERS) \<and> SessionID f = 0
      \<and> unat (Length f) = length (Data f) \<and> length (Data f) \<le> maxAlloc)"

lemma unat_of_nat_small: "n \<le> maxAlloc \<Longrightarrow> unat (of_nat n :: u64) = n"
  by (simp add: unat_of_nat maxAlloc_def)

lemma plain_frame_DATA: "length p \<le> maxAlloc \<Longrightarrow> plain_frame (DATA_frame p)"
  by (simp add: plain_frame_def DATA_frame_def unat_of_nat_small)

lemma plain_frame_HEADERS:
  "length (headers_block X hdr st) \<le> maxAlloc \<Longrightarrow> plain_frame (HEADERS_frame X hdr st)"
  by (simp add: plain_frame_def HEADERS_frame_def unat_of_nat_small)

lemma wire_frames_Nil: "wire_frames [] = []"
  by (simp add: wire_frames.simps)

lemma plain_frame_wire:
  assumes "plain_frame f"
  shows "Frame_Write f = Inr (frame_bytes f)"
    and "wire_frames (frame_bytes f @ rest) = f # wire_frames rest"
proof -
  from assms have ty: "Type f \<noteq> FRAME_WEBTRANSPORT_STREAM" and tv: "Type f \<le> maxVarInt8"
    and len: "unat (Length f) = length (Data f)" and al: "length (Data f) \<le> maxAlloc"
    and sid: "SessionID f = 0"
    by (auto simp: plain_frame_def FRAME_DATA_def FRAME_HEADERS_def
        FRAME_WEBTRANSPORT_STREAM_def maxVarInt8_def)
  from Frame_Read_Write_append[OF ty tv len al, of Frame_zero rest False]
  obtain bs where w: "Frame_Write f = Inr bs" and two: "2 \<le> length bs"
    and rd: "Frame_Read Frame_zero \<lparr>pending = bs @ rest, eof_on_empty_read = False\<rparr>
       = (Frame_zero\<lparr>Type := Type f, Length := Length f, Data := Data f\<rparr>, None,
          \<lparr>pending = rest, eof_on_empty_read = False\<rparr>)"
    by auto
  from w show fb: "Frame_Write f = Inr (frame_bytes f)" by (simp add: frame_bytes_def)
  from sid have same: "Frame_zero\<lparr>Type := Type f, Length := Length f, Data := Data f\<rparr> = f"
    by (simp add: Frame_zero_def)
  from w have b: "frame_bytes f = bs" by (simp add: frame_bytes_def)
  from two have ne: "bs \<noteq> []" by auto
  show "wire_frames (frame_bytes f @ rest) = f # wire_frames rest"
    unfolding b
    by (subst wire_frames.simps) (simp add: rd same ne two)
qed

lemma wire_frames_plain:
  "list_all plain_frame fs \<Longrightarrow> wire_frames (concat (map frame_bytes fs)) = fs"
  by (induction fs) (simp_all add: wire_frames_Nil plain_frame_wire(2))

subsection \<open>The buffered writer keeps the bytes in order\<close>

definition out :: "ResponseWriter \<Rightarrow> byte list" where
  "out w = stream w @ bufferedStream w"

lemma bufio_Write_out: "out (bufio_Write w p) = out w @ p"
  by (auto simp: out_def bufio_Write_def Let_def)

lemma bufio_Write_fields:
  "header (bufio_Write w p) = header w" "status (bufio_Write w p) = status w"
  "headerWritten (bufio_Write w p) = headerWritten w"
  by (auto simp: bufio_Write_def Let_def)

lemma Flush_out: "out (Flush w) = out w"
  by (simp add: out_def Flush_def)

lemma Flush_fields:
  "header (Flush w) = header w" "status (Flush w) = status w"
  "headerWritten (Flush w) = headerWritten w" "bufferedStream (Flush w) = []"
  by (simp_all add: Flush_def)

subsection \<open>One call\<close>

lemma WriteHeader_latched: "headerWritten w \<Longrightarrow> WriteHeader X st w = (w, None)"
  by (simp add: WriteHeader_def)

lemma WriteHeader_fresh:
  assumes "\<not> headerWritten w" and "length (headers_block X (header w) st) \<le> maxAlloc"
  shows "\<exists>w'. WriteHeader X st w = (w', None) \<and> header w' = header w \<and> status w' = st
     \<and> out w' = out w @ frame_bytes (HEADERS_frame X (header w) st)
     \<and> (headerWritten w' \<longleftrightarrow> st < 100 \<or> 200 \<le> st)
     \<and> (\<not> headerWritten w' \<longrightarrow> bufferedStream w' = [])"
proof -
  let ?w1 = "if st < 100 \<or> st \<ge> 200 then w\<lparr>headerWritten := True\<rparr> else w"
  let ?w2 = "?w1\<lparr>status := st\<rparr>"
  have h2: "header ?w2 = header w" and o2: "out ?w2 = out w"
    and hw2: "headerWritten ?w2 \<longleftrightarrow> st < 100 \<or> 200 \<le> st"
    using assms(1) by (auto simp: out_def)
  let ?bs = "frame_bytes (HEADERS_frame X (header w) st)"
  from plain_frame_wire(1)[OF plain_frame_HEADERS[OF assms(2)]]
  have fw: "Frame_Write (HEADERS_frame X (header w) st) = Inr ?bs" .
  let ?w3 = "bufio_Write ?w2 ?bs"
  have eq: "WriteHeader X st w = (if \<not> headerWritten ?w3 then (Flush ?w3, None) else (?w3, None))"
    using assms(1) fw h2
    by (simp add: WriteHeader_def Let_def HEADERS_frame_def headers_block_def)
  show ?thesis
  proof (cases "headerWritten ?w3")
    case True
    with eq have "WriteHeader X st w = (?w3, None)" by simp
    moreover have "header ?w3 = header w" "status ?w3 = st" "out ?w3 = out w @ ?bs"
      "headerWritten ?w3 \<longleftrightarrow> st < 100 \<or> 200 \<le> st"
      using h2 o2 hw2 by (simp_all add: bufio_Write_fields bufio_Write_out)
    ultimately show ?thesis using True by auto
  next
    case False
    with eq have "WriteHeader X st w = (Flush ?w3, None)" by simp
    moreover have "header (Flush ?w3) = header w" "status (Flush ?w3) = st"
      "out (Flush ?w3) = out w @ ?bs"
      "headerWritten (Flush ?w3) \<longleftrightarrow> st < 100 \<or> 200 \<le> st"
      "bufferedStream (Flush ?w3) = []"
      using h2 o2 hw2 by (simp_all add: bufio_Write_fields bufio_Write_out Flush_fields Flush_out)
    ultimately show ?thesis by auto
  qed
qed

lemma Write_step:
  assumes "length (headers_block X (header w) 200) \<le> maxAlloc" and "length p \<le> maxAlloc"
  shows "\<exists>w' r. Write X p w = (w', r) \<and> header w' = header w \<and> headerWritten w'
     \<and> status w' = (if headerWritten w then status w else 200)
     \<and> (r = Inl ErrBodyNotAllowed \<or> (\<exists>n. r = Inr n))
     \<and> out w' = out w
          @ (if headerWritten w then [] else frame_bytes (HEADERS_frame X (header w) 200))
          @ (if bodyAllowedForStatus (status w') then frame_bytes (DATA_frame p) else [])"
proof -
  obtain w1 where w1: "(if \<not> headerWritten w then WriteHeader X 200 w else (w, None)) = (w1, None)"
      and h1: "header w1 = header w" and l1: "headerWritten w1"
      and s1: "status w1 = (if headerWritten w then status w else 200)"
      and o1: "out w1 = out w
          @ (if headerWritten w then [] else frame_bytes (HEADERS_frame X (header w) 200))"
  proof (cases "headerWritten w")
    case True
    then show ?thesis using that[of w] by simp
  next
    case False
    from WriteHeader_fresh[OF False assms(1)] obtain w' where
      "WriteHeader X 200 w = (w', None)" "header w' = header w" "headerWritten w'"
      "status w' = 200"
      "out w' = out w @ frame_bytes (HEADERS_frame X (header w) 200)"
      by auto
    with False show ?thesis using that[of w'] by simp
  qed
  show ?thesis
  proof (cases "bodyAllowedForStatus (status w1)")
    case False
    with w1 have "Write X p w = (w1, Inl ErrBodyNotAllowed)" by (simp add: Write_def)
    with h1 l1 s1 o1 False show ?thesis by simp
  next
    case True
    from plain_frame_wire(1)[OF plain_frame_DATA[OF assms(2)]]
    have "Frame_Write (DATA_frame p) = Inr (frame_bytes (DATA_frame p))" .
    with w1 True have "Write X p w
        = (bufio_Write w1 (frame_bytes (DATA_frame p)), Inr (length (frame_bytes (DATA_frame p))))"
      by (simp add: Write_def DATA_frame_def)
    with h1 l1 s1 o1 True show ?thesis
      by (simp add: bufio_Write_fields bufio_Write_out)
  qed
qed

subsection \<open>A sequence of calls\<close>

text \<open>
  What a sequence of calls asks for, read off the calls alone. A call is informational
  when it is \<open>WriteHeader\<close> with a 1xx status. The calls before the first one that is not
  informational give the informational statuses; that first call gives the final status,
  its own for \<open>WriteHeader\<close> and 200 for \<open>Write\<close>; the payloads are those of the \<open>Write\<close>
  calls from that call on, and they are sent when the final status allows a body.
\<close>

fun informational :: "call \<Rightarrow> bool" where
  "informational (Call_WriteHeader st) = (100 \<le> st \<and> st < 200)"
| "informational (Call_Write p) = False"

fun call_status :: "call \<Rightarrow> int" where
  "call_status (Call_WriteHeader st) = st"
| "call_status (Call_Write p) = 200"

fun payloads :: "call list \<Rightarrow> byte list list" where
  "payloads [] = []"
| "payloads (Call_WriteHeader st # cs) = payloads cs"
| "payloads (Call_Write p # cs) = p # payloads cs"

definition info_statuses :: "call list \<Rightarrow> int list" where
  "info_statuses cs = map call_status (takeWhile informational cs)"

definition final_status :: "call list \<Rightarrow> int list" where
  "final_status cs = map call_status (take 1 (dropWhile informational cs))"

definition data_payloads :: "call list \<Rightarrow> byte list list" where
  "data_payloads cs =
     (if list_all bodyAllowedForStatus (final_status cs)
      then payloads (dropWhile informational cs) else [])"

definition response_frames ::
    "extern \<Rightarrow> (string \<times> string list) list \<Rightarrow> call list \<Rightarrow> Frame list" where
  "response_frames X hdr cs =
     map (HEADERS_frame X hdr) (info_statuses cs) @ map (HEADERS_frame X hdr) (final_status cs)
     @ map DATA_frame (data_payloads cs)"

lemma payloads_small:
  "list_all (\<lambda>c. case c of Call_Write p \<Rightarrow> length p \<le> maxAlloc | _ \<Rightarrow> True) cs
     \<Longrightarrow> list_all (\<lambda>p. length p \<le> maxAlloc) (payloads cs)"
  by (induction cs rule: payloads.induct) simp_all

lemma data_payloads_small:
  assumes "list_all (\<lambda>c. case c of Call_Write p \<Rightarrow> length p \<le> maxAlloc | _ \<Rightarrow> True) cs"
  shows "list_all (\<lambda>p. length p \<le> maxAlloc) (data_payloads cs)"
proof -
  from assms have
    "list_all (\<lambda>c. case c of Call_Write p \<Rightarrow> length p \<le> maxAlloc | _ \<Rightarrow> True)
       (dropWhile informational cs)"
    by (auto simp: list_all_iff dest: set_dropWhileD)
  from payloads_small[OF this] show ?thesis by (simp add: data_payloads_def)
qed

lemma response_frames_plain:
  assumes "\<forall>fields. length (qpack_encode X fields) \<le> maxAlloc"
    and "list_all (\<lambda>c. case c of Call_Write p \<Rightarrow> length p \<le> maxAlloc | _ \<Rightarrow> True) cs"
  shows "list_all plain_frame (response_frames X hdr cs)"
  using assms(1) data_payloads_small[OF assms(2)]
  by (auto simp: response_frames_def list_all_iff headers_block_def
      intro!: plain_frame_HEADERS plain_frame_DATA)

text \<open>On a latched writer only \<open>Write\<close> sends anything, and only if the status allows.\<close>

lemma run_latched:
  assumes "\<forall>fields. length (qpack_encode X fields) \<le> maxAlloc"
    and "list_all (\<lambda>c. case c of Call_Write p \<Rightarrow> length p \<le> maxAlloc | _ \<Rightarrow> True) cs"
    and "headerWritten w"
  shows "\<exists>w'. run X cs w = (w', None) \<and> header w' = header w \<and> headerWritten w'
     \<and> out w' = out w @ concat (map frame_bytes (map DATA_frame
          (if bodyAllowedForStatus (status w) then payloads cs else [])))"
  using assms(2,3)
proof (induction cs arbitrary: w)
  case Nil
  then show ?case by simp
next
  case (Cons c cs)
  show ?case
  proof (cases c)
    case (Call_WriteHeader st)
    from Cons.prems have "list_all (\<lambda>c. case c of Call_Write p \<Rightarrow> length p \<le> maxAlloc | _ \<Rightarrow> True) cs"
      by simp
    from Cons.prems(2) Call_WriteHeader have
      e: "run X (c # cs) w = run X cs w" "payloads (c # cs) = payloads cs"
      by (simp_all add: WriteHeader_latched)
    from Cons.IH[OF \<open>list_all _ cs\<close> Cons.prems(2)] show ?thesis
      unfolding e .
  next
    case (Call_Write p)
    with Cons.prems have p: "length p \<le> maxAlloc"
      and rest: "list_all (\<lambda>c. case c of Call_Write p \<Rightarrow> length p \<le> maxAlloc | _ \<Rightarrow> True) cs"
      by simp_all
    from assms(1) have "length (headers_block X (header w) 200) \<le> maxAlloc"
      by (simp add: headers_block_def)
    from Write_step[OF this p] Cons.prems(2) obtain w1 r where
      s: "Write X p w = (w1, r)" "header w1 = header w" "headerWritten w1"
        "status w1 = status w" "r = Inl ErrBodyNotAllowed \<or> (\<exists>n. r = Inr n)"
        "out w1 = out w
           @ (if bodyAllowedForStatus (status w) then frame_bytes (DATA_frame p) else [])"
      by auto
    from Cons.IH[OF rest s(3)] obtain w' where
      r: "run X cs w1 = (w', None)" "header w' = header w1" "headerWritten w'"
        "out w' = out w1 @ concat (map frame_bytes (map DATA_frame
          (if bodyAllowedForStatus (status w1) then payloads cs else [])))"
      by blast
    from s(1,5) r(1) Call_Write have "run X (c # cs) w = (w', None)" by auto
    with r s(2,4,6) Call_Write show ?thesis by simp
  qed
qed

text \<open>
  On a writer that is not latched, the bytes sent and held after the calls are those of
  the frames the calls ask for.
\<close>

lemma run_fresh:
  assumes "\<forall>fields. length (qpack_encode X fields) \<le> maxAlloc"
    and "list_all (\<lambda>c. case c of Call_Write p \<Rightarrow> length p \<le> maxAlloc | _ \<Rightarrow> True) cs"
    and "\<not> headerWritten w"
  shows "\<exists>w'. run X cs w = (w', None) \<and> header w' = header w
     \<and> headerWritten w' = (final_status cs \<noteq> [])
     \<and> out w' = out w @ concat (map frame_bytes (response_frames X (header w) cs))"
  using assms(2,3)
proof (induction cs arbitrary: w)
  case Nil
  then show ?case
    by (simp add: response_frames_def info_statuses_def final_status_def data_payloads_def)
next
  case (Cons c cs)
  from assms(1) have hb: "\<And>st. length (headers_block X (header w) st) \<le> maxAlloc"
    by (simp add: headers_block_def)
  show ?case
  proof (cases c)
    case (Call_WriteHeader st)
    from Cons.prems have rest:
      "list_all (\<lambda>c. case c of Call_Write p \<Rightarrow> length p \<le> maxAlloc | _ \<Rightarrow> True) cs"
      by simp
    from WriteHeader_fresh[OF Cons.prems(2) hb, of st] obtain w1 where
      s: "WriteHeader X st w = (w1, None)" "header w1 = header w" "status w1 = st"
        "out w1 = out w @ frame_bytes (HEADERS_frame X (header w) st)"
        "headerWritten w1 \<longleftrightarrow> st < 100 \<or> 200 \<le> st"
      by auto
    show ?thesis
    proof (cases "100 \<le> st \<and> st < 200")
      case True
      with s(5) have "\<not> headerWritten w1" by auto
      from Cons.IH[OF rest this] obtain w' where
        r: "run X cs w1 = (w', None)" "header w' = header w1"
          "headerWritten w' = (final_status cs \<noteq> [])"
          "out w' = out w1 @ concat (map frame_bytes (response_frames X (header w1) cs))"
        by blast
      from True Call_WriteHeader have
        "response_frames X (header w) (c # cs)
           = HEADERS_frame X (header w) st # response_frames X (header w) cs"
        "final_status (c # cs) = final_status cs"
        by (simp_all add: response_frames_def info_statuses_def final_status_def
            data_payloads_def)
      with r s(1,2,4) Call_WriteHeader show ?thesis by simp
    next
      case False
      with s(5) have l: "headerWritten w1" by auto
      from run_latched[OF assms(1) rest l] obtain w' where
        r: "run X cs w1 = (w', None)" "header w' = header w1" "headerWritten w'"
          "out w' = out w1 @ concat (map frame_bytes (map DATA_frame
            (if bodyAllowedForStatus (status w1) then payloads cs else [])))"
        by blast
      from False Call_WriteHeader have ni: "\<not> informational c" by simp
      then have dw: "dropWhile informational (c # cs) = c # cs"
        and tw: "takeWhile informational (c # cs) = []"
        by simp_all
      from Call_WriteHeader have cst: "call_status c = st"
        and pl: "payloads (c # cs) = payloads cs"
        by simp_all
      have
        "response_frames X (header w) (c # cs)
           = HEADERS_frame X (header w) st
             # map DATA_frame (if bodyAllowedForStatus st then payloads cs else [])"
        "final_status (c # cs) = [st]"
        unfolding response_frames_def info_statuses_def final_status_def data_payloads_def dw tw
        by (simp_all add: cst pl)
      with r s(1,2,3,4) Call_WriteHeader show ?thesis by simp
    qed
  next
    case (Call_Write p)
    with Cons.prems have p: "length p \<le> maxAlloc"
      and rest: "list_all (\<lambda>c. case c of Call_Write p \<Rightarrow> length p \<le> maxAlloc | _ \<Rightarrow> True) cs"
      by simp_all
    have ok: "bodyAllowedForStatus 200" by (simp add: bodyAllowedForStatus_def)
    from Write_step[OF hb p] Cons.prems(2) ok obtain w1 r where
      s: "Write X p w = (w1, r)" "header w1 = header w" "headerWritten w1"
        "status w1 = 200" "r = Inl ErrBodyNotAllowed \<or> (\<exists>n. r = Inr n)"
        "out w1 = out w @ frame_bytes (HEADERS_frame X (header w) 200)
           @ frame_bytes (DATA_frame p)"
      by auto
    from run_latched[OF assms(1) rest s(3)] obtain w' where
      r: "run X cs w1 = (w', None)" "header w' = header w1" "headerWritten w'"
        "out w' = out w1 @ concat (map frame_bytes (map DATA_frame
          (if bodyAllowedForStatus (status w1) then payloads cs else [])))"
      by blast
    from Call_Write ok have
      "response_frames X (header w) (c # cs)
         = HEADERS_frame X (header w) 200 # DATA_frame p # map DATA_frame (payloads cs)"
      "final_status (c # cs) = [200]"
      by (simp_all add: response_frames_def info_statuses_def final_status_def
          data_payloads_def)
    moreover from s(1,5) r(1) Call_Write have "run X (c # cs) w = (w', None)" by auto
    ultimately show ?thesis using r s(2,4,6) ok by simp
  qed
qed

text \<open>
  C8 (as amended). A sequence \<open>cs\<close> of \<open>WriteHeader\<close> and \<open>Write\<close> calls on a writer that
  has written nothing yet runs to its end, and the frames a peer then reads off the
  response are, in this order: one \<open>HEADERS\<close> frame for each \<open>WriteHeader\<close> call with a
  1xx status that comes before every other call, with the status of that call; then, if
  there is another call, one \<open>HEADERS\<close> frame for the first of them, with its status if
  it is \<open>WriteHeader\<close> and 200 if it is \<open>Write\<close>; then one \<open>DATA\<close> frame for the payload of
  each \<open>Write\<close> call from that call on, or none if that status allows no body. The writer
  is latched at the end exactly when there was such a call. So at most one \<open>HEADERS\<close>
  frame for a status outside 1xx is sent, and it comes before every \<open>DATA\<close> frame; each
  1xx call before it adds a \<open>HEADERS\<close> frame of its own. On a latched writer
  \<open>WriteHeader\<close> changes nothing; on a writer that is not latched a status outside 1xx
  latches it, and a 1xx status leaves it unlatched with an empty buffer. Header blocks
  and payloads are slices the runtime can hold.
\<close>

theorem ResponseWriter_frames:
  assumes "\<forall>fields. length (qpack_encode X fields) \<le> maxAlloc"
    and "list_all (\<lambda>c. case c of Call_Write p \<Rightarrow> length p \<le> maxAlloc | _ \<Rightarrow> True) cs"
    and "stream w0 = []" and "bufferedStream w0 = []" and "\<not> headerWritten w0"
  shows "(\<exists>w'. run X cs w0 = (w', None)
          \<and> wire_frames (stream w' @ bufferedStream w')
              = map (HEADERS_frame X (header w0)) (info_statuses cs)
                @ map (HEADERS_frame X (header w0)) (final_status cs)
                @ map DATA_frame (data_payloads cs)
          \<and> headerWritten w' = (final_status cs \<noteq> []))
       \<and> info_statuses cs = map call_status (takeWhile informational cs)
       \<and> final_status cs = map call_status (take 1 (dropWhile informational cs))
       \<and> data_payloads cs
           = (if list_all bodyAllowedForStatus (final_status cs)
              then payloads (dropWhile informational cs) else [])
       \<and> list_all (\<lambda>st. 100 \<le> st \<and> st < 200) (info_statuses cs)
       \<and> length (final_status cs) \<le> 1
       \<and> list_all (\<lambda>st. st < 100 \<or> 200 \<le> st) (final_status cs)
       \<and> (if final_status cs = [] then data_payloads cs = [] else True)
       \<and> (if headerWritten w then WriteHeader X st w = (w, None)
          else if st < 100 \<or> 200 \<le> st then headerWritten (fst (WriteHeader X st w))
          else \<not> headerWritten (fst (WriteHeader X st w))
               \<and> bufferedStream (fst (WriteHeader X st w)) = [])"
proof (intro conjI)
  from run_fresh[OF assms(1,2,5)] obtain w' where
    r: "run X cs w0 = (w', None)" "headerWritten w' = (final_status cs \<noteq> [])"
      "out w' = out w0 @ concat (map frame_bytes (response_frames X (header w0) cs))"
    by blast
  from r(3) assms(3,4) have "stream w' @ bufferedStream w'
      = concat (map frame_bytes (response_frames X (header w0) cs))"
    by (simp add: out_def)
  with wire_frames_plain[OF response_frames_plain[OF assms(1,2), of "header w0"]]
  have "wire_frames (stream w' @ bufferedStream w')
      = map (HEADERS_frame X (header w0)) (info_statuses cs)
        @ map (HEADERS_frame X (header w0)) (final_status cs)
        @ map DATA_frame (data_payloads cs)"
    by (simp add: response_frames_def)
  with r(1,2) show "\<exists>w'. run X cs w0 = (w', None)
          \<and> wire_frames (stream w' @ bufferedStream w')
              = map (HEADERS_frame X (header w0)) (info_statuses cs)
                @ map (HEADERS_frame X (header w0)) (final_status cs)
                @ map DATA_frame (data_payloads cs)
          \<and> headerWritten w' = (final_status cs \<noteq> [])"
    by blast
next
  show "info_statuses cs = map call_status (takeWhile informational cs)"
    by (simp add: info_statuses_def)
next
  show "final_status cs = map call_status (take 1 (dropWhile informational cs))"
    by (simp add: final_status_def)
next
  show "data_payloads cs
           = (if list_all bodyAllowedForStatus (final_status cs)
              then payloads (dropWhile informational cs) else [])"
    by (simp add: data_payloads_def)
next
  have "\<And>c. c \<in> set (takeWhile informational cs) \<Longrightarrow> 100 \<le> call_status c \<and> call_status c < 200"
  proof -
    fix c assume "c \<in> set (takeWhile informational cs)"
    then have "informational c" by (rule set_takeWhileD[THEN conjunct2])
    then show "100 \<le> call_status c \<and> call_status c < 200" by (cases c) simp_all
  qed
  then show "list_all (\<lambda>st. 100 \<le> st \<and> st < 200) (info_statuses cs)"
    by (simp add: info_statuses_def list_all_iff)
next
  show "length (final_status cs) \<le> 1" by (simp add: final_status_def)
next
  show "list_all (\<lambda>st. st < 100 \<or> 200 \<le> st) (final_status cs)"
  proof (cases "dropWhile informational cs")
    case Nil
    show ?thesis unfolding final_status_def Nil by simp
  next
    case (Cons c rest)
    then have "\<not> informational c" using hd_dropWhile[of informational cs] by auto
    then have "call_status c < 100 \<or> 200 \<le> call_status c" by (cases c) auto
    then show ?thesis unfolding final_status_def Cons by simp
  qed
next
  show "if final_status cs = [] then data_payloads cs = [] else True"
  proof (cases "dropWhile informational cs")
    case Nil
    show ?thesis unfolding final_status_def data_payloads_def Nil by simp
  next
    case (Cons c rest)
    show ?thesis unfolding final_status_def data_payloads_def Cons by simp
  qed
next
  show "if headerWritten w then WriteHeader X st w = (w, None)
          else if st < 100 \<or> 200 \<le> st then headerWritten (fst (WriteHeader X st w))
          else \<not> headerWritten (fst (WriteHeader X st w))
               \<and> bufferedStream (fst (WriteHeader X st w)) = []"
  proof (cases "headerWritten w")
    case True
    then show ?thesis by (simp add: WriteHeader_latched)
  next
    case False
    from assms(1) have "length (headers_block X (header w) st) \<le> maxAlloc"
      by (simp add: headers_block_def)
    from WriteHeader_fresh[OF False this] False show ?thesis by auto
  qed
qed

theorem ResponseWriter_frames_witness:
  "(\<exists>w'. run sample_extern
        [Call_WriteHeader 100, Call_WriteHeader 102, Call_WriteHeader 404, Call_WriteHeader 200,
         Call_Write [0xAA], Call_Write [0xBB, 0xCC]]
        NewResponseWriter = (w', None)
    \<and> wire_frames (stream w' @ bufferedStream w')
        = [HEADERS_frame sample_extern [] 100, HEADERS_frame sample_extern [] 102,
           HEADERS_frame sample_extern [] 404, DATA_frame [0xAA], DATA_frame [0xBB, 0xCC]]
    \<and> headerWritten w')
   \<and> \<not> headerWritten (fst (WriteHeader sample_extern 100 NewResponseWriter))
   \<and> bufferedStream (fst (WriteHeader sample_extern 100 NewResponseWriter)) = []"
proof -
  have h1: "\<forall>fields. length (qpack_encode sample_extern fields) \<le> maxAlloc"
    by (simp add: sample_extern_def maxAlloc_def)
  have h2: "list_all (\<lambda>c. case c of Call_Write p \<Rightarrow> length p \<le> maxAlloc | _ \<Rightarrow> True)
      [Call_WriteHeader 100, Call_WriteHeader 102, Call_WriteHeader 404, Call_WriteHeader 200,
       Call_Write [0xAA], Call_Write [0xBB, 0xCC]]"
    by (simp add: maxAlloc_def)
  have h3: "stream NewResponseWriter = []" "bufferedStream NewResponseWriter = []"
    "\<not> headerWritten NewResponseWriter" "header NewResponseWriter = []"
    by (simp_all add: NewResponseWriter_def)
  have i: "info_statuses [Call_WriteHeader 100, Call_WriteHeader 102, Call_WriteHeader 404,
       Call_WriteHeader 200, Call_Write [0xAA], Call_Write [0xBB, 0xCC]] = [100, 102]"
    by (simp add: info_statuses_def)
  have f: "final_status [Call_WriteHeader 100, Call_WriteHeader 102, Call_WriteHeader 404,
       Call_WriteHeader 200, Call_Write [0xAA], Call_Write [0xBB, 0xCC]] = [404]"
    by (simp add: final_status_def)
  have d: "data_payloads [Call_WriteHeader 100, Call_WriteHeader 102, Call_WriteHeader 404,
       Call_WriteHeader 200, Call_Write [0xAA], Call_Write [0xBB, 0xCC]]
       = [[0xAA], [0xBB, 0xCC]]"
    by (simp add: data_payloads_def f bodyAllowedForStatus_def)
  from ResponseWriter_frames[OF h1 h2 h3(1,2,3), of NewResponseWriter 100] h3(3)
  show ?thesis
    unfolding i f d h3(4) by simp
qed

text \<open>
  The claim as first stated fails on a 1xx status before the body: \<open>WriteHeader(100)\<close>
  sends a \<open>HEADERS\<close> frame and does not latch, so \<open>Write\<close> sends the \<open>HEADERS\<close> frame
  of status 200 before its \<open>DATA\<close> frame. The peer reads two \<open>HEADERS\<close> frames before
  the first \<open>DATA\<close> frame.
\<close>

theorem ResponseWriter_two_HEADERS_frames:
  "run sample_extern [Call_WriteHeader 100, Call_Write [0xAA]] NewResponseWriter
     = (\<lparr>stream = [0x01, 0x01, 0x01], bufferedStream = [0x01, 0x01, 0x01, 0x00, 0x01, 0xAA],
         header = [], status = 200, headerWritten = True, dataStreamUsed = False\<rparr>, None)
   \<and> map Type (wire_frames ([0x01, 0x01, 0x01] @ [0x01, 0x01, 0x01, 0x00, 0x01, 0xAA]))
     = [FRAME_HEADERS, FRAME_HEADERS, FRAME_DATA]"
  by (simp add: WriteHeader_def Write_def NewResponseWriter_def sample_extern_def
      Frame_Write_def quicvarint_Append_def FRAME_HEADERS_def FRAME_DATA_def
      FRAME_WEBTRANSPORT_STREAM_def maxVarInt1_def bufio_Write_def bufio_size_def Flush_def
      bodyAllowedForStatus_def Let_def wire_frames.simps Frame_Read_def Frame_zero_def
      reader_Read_def maxAlloc_def)

end
